theory Spec2Isabelle
  imports Main "HOL-Library.Word" "HOL-Library.Monad_Syntax"
begin

section \<open>Values\<close>

text \<open>
  The queue of \<^verbatim>\<open>cursor.go\<close> stores Go values of type \<^verbatim>\<open>interface{}\<close>.  The values that
  occur are the untyped nil, a \<^verbatim>\<open>json.RawMessage\<close> (the bytes of one undecoded reply chunk) and
  the trees that \<^verbatim>\<open>json.Unmarshal\<close> produces for an \<^verbatim>\<open>interface{}\<close> target (booleans, numbers,
  strings, \<^verbatim>\<open>[]interface{}\<close>, \<^verbatim>\<open>map[string]interface{}\<close>).  The payload of a number plays no
  role in the cursor, so it is kept as an integer.
\<close>

datatype iface =
    IfaceNil
  | RawMessage string
  | JBool bool
  | JNumber int
  | JString string
  | JArray "iface list"
  | JObject "(string \<times> iface) list"

section \<open>The queue\<close>

text \<open>
  \<^verbatim>\<open>type queue struct { elems []interface{}; nelems, popi, pushi int }\<close>.
  The three counters are Go \<^verbatim>\<open>int\<close>s that only ever hold indices into, or the length of,
  \<^verbatim>\<open>elems\<close>; they are natural numbers here.  A result \<open>None\<close> of a queue operation is a Go
  run-time panic (index or slice bound out of range).
\<close>

record queue =
  elems :: "iface list"
  nelems :: nat
  popi :: nat
  pushi :: nat

text \<open>The zero value of the struct: the queue of a freshly allocated cursor.\<close>

definition queue_zero :: queue where
  "queue_zero = \<lparr>elems = [], nelems = 0, popi = 0, pushi = 0\<rparr>"

definition Len :: "queue \<Rightarrow> nat" where
  "Len q = nelems q"

text \<open>\<^verbatim>\<open>make([]interface{}, n)\<close>: a fresh slice of \<open>n\<close> nil values.\<close>

definition make_slice :: "nat \<Rightarrow> iface list" where
  "make_slice n = replicate n IfaceNil"

text \<open>
  The builtin \<^verbatim>\<open>copy(dst, src)\<close> overwrites the first \<open>min (len dst) (len src)\<close> elements of
  \<open>dst\<close> and leaves the rest of \<open>dst\<close> alone.
\<close>

definition copy :: "iface list \<Rightarrow> iface list \<Rightarrow> iface list" where
  "copy dst src =
     take (min (length dst) (length src)) src @ drop (min (length dst) (length src)) dst"

text \<open>\<^verbatim>\<open>for i := range a { a[i] = nil }\<close>, the loop that clears the old backing array.\<close>

fun clear_from :: "nat \<Rightarrow> nat \<Rightarrow> iface list \<Rightarrow> iface list" where
  "clear_from i 0 a = a"
| "clear_from i (Suc k) a = clear_from (Suc i) k (a[i := IfaceNil])"

definition clear_all :: "iface list \<Rightarrow> iface list" where
  "clear_all a = clear_from 0 (length a) a"

definition newcap_of :: "nat \<Rightarrow> nat" where
  "newcap_of curcap =
     (if curcap = 0 then 8
      else if curcap < 1024 then curcap * 2
      else curcap + (curcap div 4))"

text \<open>
  \<^verbatim>\<open>expand\<close> returns the queue with its new backing array, and beside it the old backing array
  as the clearing loop leaves it (the old array is no longer referenced by the queue).
  \<^verbatim>\<open>q.elems[:q.popi]\<close> panics when \<open>popi\<close> exceeds the length of the slice.
\<close>

definition expand :: "queue \<Rightarrow> (queue \<times> iface list) option" where
  "expand q =
     (let curcap = length (elems q);
          newcap = newcap_of curcap;
          elems0 = make_slice newcap
      in if popi q = 0 then
           Some (q\<lparr>elems := copy elems0 (elems q), pushi := curcap\<rparr>, clear_all (elems q))
         else if curcap < popi q then None
         else
           let newpopi = newcap - (curcap - popi q);
               elems1 = copy elems0 (take (popi q) (elems q));
               elems2 = take newpopi elems1 @ copy (drop newpopi elems1) (drop (popi q) (elems q))
           in Some (q\<lparr>elems := elems2, popi := newpopi\<rparr>, clear_all (elems q)))"

definition Push :: "iface \<Rightarrow> queue \<Rightarrow> queue option" where
  "Push elem q =
     do {
       q1 \<leftarrow> (if nelems q = length (elems q) then map_option fst (expand q) else Some q);
       if pushi q1 < length (elems q1) then
         Some (q1\<lparr>elems := (elems q1)[pushi q1 := elem],
                  nelems := nelems q1 + 1,
                  pushi := (pushi q1 + 1) mod length (elems q1)\<rparr>)
       else None
     }"

definition Pop :: "queue \<Rightarrow> (iface \<times> queue) option" where
  "Pop q =
     (if nelems q = 0 then Some (IfaceNil, q)
      else if popi q < length (elems q) then
        Some (elems q ! popi q,
              q\<lparr>elems := (elems q)[popi q := IfaceNil],
                nelems := nelems q - 1,
                popi := (popi q + 1) mod length (elems q)\<rparr>)
      else None)"

definition Peek :: "queue \<Rightarrow> iface option" where
  "Peek q =
     (if nelems q = 0 then Some IfaceNil
      else if popi q < length (elems q) then Some (elems q ! popi q)
      else None)"


text \<open>
  The data-structure invariant of the ring buffer: the count fits, the read index is inside
  the array, and the write index is the read index advanced by the count (modulo the capacity).
  \<open>contents\<close> is the logical content, oldest element first.
\<close>

definition queue_inv :: "queue \<Rightarrow> bool" where
  "queue_inv q \<longleftrightarrow>
     nelems q \<le> length (elems q) \<and>
     (if elems q = [] then popi q = 0 \<and> pushi q = 0
      else popi q < length (elems q) \<and>
           pushi q = (popi q + nelems q) mod length (elems q))"

definition contents :: "queue \<Rightarrow> iface list" where
  "contents q = map (\<lambda>i. elems q ! ((popi q + i) mod length (elems q))) [0..<nelems q]"

text \<open>Calling \<^verbatim>\<open>Pop\<close> \<open>n\<close> times and collecting what it returns.\<close>

fun pop_n :: "nat \<Rightarrow> queue \<Rightarrow> (iface list \<times> queue) option" where
  "pop_n 0 q = Some ([], q)"
| "pop_n (Suc n) q =
     do { (x, q1) \<leftarrow> Pop q; (xs, q2) \<leftarrow> pop_n n q1; Some (x # xs, q2) }"

text \<open>Popping until \<^verbatim>\<open>Len()\<close> is zero: the values the queue would still hand out.\<close>

definition drain :: "queue \<Rightarrow> iface list option" where
  "drain q = map_option fst (pop_n (Len q) q)"

text \<open>A program over one queue, and its execution from a given state.\<close>

datatype qop = OpPush iface | OpPop | OpPeek | OpLen

datatype qres = ResUnit | ResElem iface | ResLen nat

definition apply_qop :: "qop \<Rightarrow> queue \<Rightarrow> (qres \<times> queue) option" where
  "apply_qop op q =
     (case op of
        OpPush x \<Rightarrow> map_option (Pair ResUnit) (Push x q)
      | OpPop \<Rightarrow> map_option (\<lambda>(x, q'). (ResElem x, q')) (Pop q)
      | OpPeek \<Rightarrow> map_option (\<lambda>x. (ResElem x, q)) (Peek q)
      | OpLen \<Rightarrow> Some (ResLen (Len q), q))"

fun run_qops :: "qop list \<Rightarrow> queue \<Rightarrow> queue option" where
  "run_qops [] q = Some q"
| "run_qops (op # ops) q = do { (r, q1) \<leftarrow> apply_qop op q; run_qops ops q1 }"

text \<open>
  The number of elements pushed and not yet popped, counted over the operations alone:
  a push adds one, a pop removes one when there is one.
\<close>

fun live_count :: "qop list \<Rightarrow> nat \<Rightarrow> nat" where
  "live_count [] n = n"
| "live_count (OpPush x # ops) n = live_count ops (n + 1)"
| "live_count (OpPop # ops) n = live_count ops (n - 1)"
| "live_count (OpPeek # ops) n = live_count ops n"
| "live_count (OpLen # ops) n = live_count ops n"

section \<open>Errors, queries and replies\<close>

datatype error =
    errCursorClosed
  | ErrEmptyResult
  | QueryError string
  | DecodeError string

text \<open>
  The protocol constants of package \<^verbatim>\<open>ql2\<close> that the cursor names.  The cursor sends only
  \<^verbatim>\<open>CONTINUE\<close> and \<^verbatim>\<open>STOP\<close> queries; of the response types it distinguishes
  \<^verbatim>\<open>SUCCESS_PARTIAL\<close> and \<^verbatim>\<open>SUCCESS_FEED\<close> from all others.
\<close>

datatype Query_QueryType = Query_CONTINUE | Query_STOP

datatype Response_ResponseType =
    Response_SUCCESS_ATOM
  | Response_SUCCESS_SEQUENCE
  | Response_SUCCESS_PARTIAL
  | Response_SUCCESS_FEED
  | Response_WAIT_COMPLETE

record Query =
  Query_Type :: Query_QueryType
  Query_Token :: "64 word"

record Response =
  Response_Type :: Response_ResponseType
  Response_Responses :: "string list"

section \<open>The cursor\<close>

text \<open>
  \<^verbatim>\<open>Connection\<close> is declared outside \<^verbatim>\<open>cursor.go\<close>; the cursor reads one field of it,
  the inner network connection \<^verbatim>\<open>conn.conn\<close>, and only compares it with nil.
\<close>

datatype netconn = NetConn

record Connection =
  conn_conn :: "netconn option"

text \<open>A non-nil value of the field \<^verbatim>\<open>releaseConn func(error)\<close>.\<close>

datatype releasefunc = ReleaseFunc

text \<open>
  The fields of \<^verbatim>\<open>Cursor\<close> that \<^verbatim>\<open>cursor.go\<close> reads or writes after construction.  (\<^verbatim>\<open>pc\<close>,
  \<^verbatim>\<open>query\<close>, \<^verbatim>\<open>term\<close> and \<^verbatim>\<open>profile\<close> are carried along by the Go code but never inspected by the
  operations below.)  A pointer or func field is an \<open>option\<close>, \<open>None\<close> being nil.  The embedded
  mutex is not part of the state: the model is the execution of the operations by one
  goroutine, each operation running to its end before the next starts.
\<close>

record Cursor =
  releaseConn :: "releasefunc option"
  conn :: "Connection option"
  token :: "64 word"
  opts :: "(string \<times> iface) list"
  lastErr :: "error option"
  fetching :: "32 word"
  closed :: bool
  finished :: bool
  buffer :: queue
  responses :: queue

definition newCursor :: "Connection option \<Rightarrow> 64 word \<Rightarrow> (string \<times> iface) list \<Rightarrow> Cursor" where
  "newCursor cn tok os =
     \<lparr>releaseConn = None, conn = cn, token = tok, opts = os, lastErr = None, fetching = 0,
      closed = False, finished = False, buffer = queue_zero, responses = queue_zero\<rparr>"

text \<open>
  Everything outside the cursor that its operations touch:
  \<^item> \<open>continue_replies\<close>: what the server will answer to the successive \<^verbatim>\<open>CONTINUE\<close> requests,
    each either an error returned by \<^verbatim>\<open>conn.Query\<close> or a reply;
  \<^item> \<open>stop_reply\<close>: the error (or nil) that \<^verbatim>\<open>conn.Query\<close> returns for a \<^verbatim>\<open>STOP\<close> request;
  \<^item> \<open>sent\<close>: the requests issued so far, oldest first;
  \<^item> \<open>released\<close>: the arguments of the calls of the release callback so far;
  \<^item> \<open>spawned\<close>: the number of \<^verbatim>\<open>go c.fetchMore()\<close> statements executed so far (the goroutines
    themselves are not run by the operations below).
\<close>

record World =
  cursor :: Cursor
  continue_replies :: "(error + Response) list"
  stop_reply :: "error option"
  sent :: "Query list"
  released :: "error option list"
  spawned :: nat

text \<open>
  The collaborators of \<^verbatim>\<open>loadNext\<close> that live in other packages, taken as parameters:
  \<^verbatim>\<open>json.Unmarshal(response, &value)\<close>, \<^verbatim>\<open>recursivelyConvertPseudotype(value, c.opts)\<close> and
  \<^verbatim>\<open>encoding.Decode(dest, data)\<close>, the last one for the destination type \<open>'d\<close> of the caller.
\<close>

record 'd decoders =
  json_Unmarshal :: "string \<Rightarrow> error + iface"
  recursivelyConvertPseudotype :: "iface \<Rightarrow> (string \<times> iface) list \<Rightarrow> error + iface"
  encoding_Decode :: "iface \<Rightarrow> error + 'd"

definition Err :: "World \<Rightarrow> error option" where
  "Err w = lastErr (cursor w)"

definition handleError :: "error option \<Rightarrow> World \<Rightarrow> error option \<times> World" where
  "handleError err w =
     (let c = cursor w;
          c' = (if lastErr c \<noteq> None then c\<lparr>lastErr := err\<rparr> else c)
      in (lastErr c', w\<lparr>cursor := c'\<rparr>))"

fun push_all :: "iface list \<Rightarrow> queue \<Rightarrow> queue option" where
  "push_all [] q = Some q"
| "push_all (v # vs) q = do { q1 \<leftarrow> Push v q; push_all vs q1 }"

definition extend :: "Response \<Rightarrow> World \<Rightarrow> World option" where
  "extend response w =
     do {
       rq \<leftarrow> push_all (map RawMessage (Response_Responses response)) (responses (cursor w));
       let c = (cursor w)\<lparr>responses := rq,
                 finished := (Response_Type response \<noteq> Response_SUCCESS_PARTIAL \<and>
                              Response_Type response \<noteq> Response_SUCCESS_FEED),
                 fetching := 0\<rparr>;
       Some (if Len (responses c) = 1 \<and> \<not> finished c
             then w\<lparr>cursor := c, spawned := spawned w + 1\<rparr>
             else w\<lparr>cursor := c\<rparr>)
     }"

text \<open>
  Modelled from the spec: \<^verbatim>\<open>Connection.Query\<close> is not in \<^verbatim>\<open>cursor.go\<close>.  The spec gives it as a
  synchronous request/response that the cursor uses to send \<^verbatim>\<open>STOP\<close> and \<^verbatim>\<open>CONTINUE\<close> with its
  token, and says that the reply to a \<^verbatim>\<open>CONTINUE\<close> is fed into \<^verbatim>\<open>extend\<close> by the connection's
  reply dispatch.  The request is logged; a \<^verbatim>\<open>STOP\<close> returns \<open>stop_reply\<close>; a \<^verbatim>\<open>CONTINUE\<close> takes
  the next scripted answer, returning its error or handing its reply to \<^verbatim>\<open>extend\<close>.  The call
  does not return (\<open>None\<close>) on a nil \<^verbatim>\<open>*Connection\<close> or a nil inner connection, and when no
  answer is left for a \<^verbatim>\<open>CONTINUE\<close>.
\<close>

definition conn_Query :: "Connection option \<Rightarrow> Query \<Rightarrow> World \<Rightarrow> (error option \<times> World) option" where
  "conn_Query cn q w =
     (case cn of
        None \<Rightarrow> None
      | Some c \<Rightarrow>
          if conn_conn c = None then None
          else
            let w1 = w\<lparr>sent := sent w @ [q]\<rparr> in
            (case Query_Type q of
               Query_STOP \<Rightarrow> Some (stop_reply w1, w1)
             | Query_CONTINUE \<Rightarrow>
                 (case continue_replies w1 of
                    [] \<Rightarrow> None
                  | Inl e # rest \<Rightarrow> Some (Some e, w1\<lparr>continue_replies := rest\<rparr>)
                  | Inr r # rest \<Rightarrow>
                      map_option (Pair None) (extend r (w1\<lparr>continue_replies := rest\<rparr>)))))"

definition fetchMore :: "World \<Rightarrow> (error option \<times> World) option" where
  "fetchMore w =
     (if fetching (cursor w) = 0 then
        let w1 = w\<lparr>cursor := (cursor w)\<lparr>fetching := 1\<rparr>\<rparr>;
            q = \<lparr>Query_Type = Query_CONTINUE, Query_Token = token (cursor w1)\<rparr>
        in do {
          (err, w2) \<leftarrow> conn_Query (conn (cursor w1)) q w1;
          Some (err, snd (handleError err w2))
        }
      else Some (None, w))"

definition call_releaseConn :: "error option \<Rightarrow> World \<Rightarrow> World option" where
  "call_releaseConn err w =
     (case releaseConn (cursor w) of
        None \<Rightarrow> None
      | Some f \<Rightarrow> Some (w\<lparr>released := released w @ [err]\<rparr>))"

definition Close :: "World \<Rightarrow> (error option \<times> World) option" where
  "Close w =
     (let c = cursor w in
      if closed c then Some (None, w)
      else
        (case conn c of
           None \<Rightarrow> Some (None, w)
         | Some cn \<Rightarrow>
             if conn_conn cn = None then Some (None, w)
             else do {
               (err, w1) \<leftarrow>
                 (if \<not> closed c \<and> \<not> finished c
                  then conn_Query (Some cn) \<lparr>Query_Type = Query_STOP, Query_Token = token c\<rparr> w
                  else Some (None, w));
               let w2 = w1\<lparr>cursor := (cursor w1)\<lparr>closed := True, conn := None\<rparr>\<rparr>;
               w3 \<leftarrow> call_releaseConn err w2;
               Some (err, w3)
             }))"


text \<open>
  \<^verbatim>\<open>loadNext\<close>, first part: the loop that fetches while nothing is queued.  The loop has no bound:
  when \<^verbatim>\<open>fetchMore\<close> finds the \<^verbatim>\<open>fetching\<close> flag set it returns nil without doing anything, and
  the loop tests the same state again.  \<open>None\<close> is a call that does not return.  The result
  \<open>Some (Some r, w)\<close> is a \<^verbatim>\<open>return\<close> of \<open>r\<close> from inside the loop, \<open>Some (None, w)\<close> the normal
  exit of the loop.
\<close>

partial_function (option) loadNext_fetch :: "World \<Rightarrow> ((bool \<times> error option) option \<times> World) option" where
  "loadNext_fetch w =
     (if lastErr (cursor w) = None \<and> Len (buffer (cursor w)) = 0 \<and>
         Len (responses (cursor w)) = 0 \<and> \<not> finished (cursor w)
      then
        if closed (cursor w) then Some (Some (False, Some errCursorClosed), w)
        else
          (case fetchMore w of
             None \<Rightarrow> None
           | Some (err, w1) \<Rightarrow>
               if err \<noteq> None then Some (Some (False, err), w1) else loadNext_fetch w1)
      else Some (None, w))"

declare loadNext_fetch.simps [code]

text \<open>
  The three-way push of one decoded value into the row buffer:
  \<^verbatim>\<open>if data, ok := value.([]interface{}); ok { for _, v := range data { c.buffer.Push(v) } }
  else if value == nil { c.buffer.Push(nil) } else { c.buffer.Push(value) }\<close>.
\<close>

definition push_value :: "iface \<Rightarrow> queue \<Rightarrow> queue option" where
  "push_value v b =
     (case v of
        JArray data \<Rightarrow> push_all data b
      | _ \<Rightarrow> if v = IfaceNil then Push IfaceNil b else Push v b)"

text \<open>
  \<^verbatim>\<open>loadNext\<close>, second part: when the row buffer is empty and a raw batch is queued, pop the
  batch, decode it and push its rows.  The result has the same shape as that of the loop.
\<close>

definition loadNext_decode :: "'d decoders \<Rightarrow> World \<Rightarrow> ((bool \<times> error option) option \<times> World) option" where
  "loadNext_decode K w =
     (if Len (buffer (cursor w)) = 0 \<and> 0 < Len (responses (cursor w)) then
        do {
          (e, rq) \<leftarrow> Pop (responses (cursor w));
          let w1 = w\<lparr>cursor := (cursor w)\<lparr>responses := rq\<rparr>\<rparr>;
          (case e of
             RawMessage response \<Rightarrow>
               (case json_Unmarshal K response of
                  Inl err \<Rightarrow> Some (Some (False, Some err), snd (handleError (Some err) w1))
                | Inr v0 \<Rightarrow>
                    let w2 = snd (handleError None w1) in
                    (case recursivelyConvertPseudotype K v0 (opts (cursor w2)) of
                       Inl err \<Rightarrow> Some (Some (False, Some err), snd (handleError (Some err) w2))
                     | Inr v \<Rightarrow>
                         let w3 = snd (handleError None w2) in
                         do {
                           b \<leftarrow> push_value v (buffer (cursor w3));
                           Some (None, w3\<lparr>cursor := (cursor w3)\<lparr>buffer := b\<rparr>\<rparr>)
                         }))
           | _ \<Rightarrow> Some (None, w1))
        }
      else Some (None, w))"

text \<open>
  \<^verbatim>\<open>loadNext(dest)\<close> returns \<^verbatim>\<open>(bool, error)\<close>; the model returns between the two what a
  successful \<^verbatim>\<open>encoding.Decode\<close> stored in \<^verbatim>\<open>*dest\<close> (\<open>None\<close> when \<^verbatim>\<open>dest\<close> was not written).
\<close>

definition loadNext :: "'d decoders \<Rightarrow> World \<Rightarrow> ((bool \<times> 'd option \<times> error option) \<times> World) option" where
  "loadNext K w =
     do {
       (r1, w1) \<leftarrow> loadNext_fetch w;
       (case r1 of
          Some (b, err) \<Rightarrow> Some ((b, None, err), w1)
        | None \<Rightarrow>
            if Len (buffer (cursor w1)) = 0 \<and> Len (responses (cursor w1)) = 0 \<and> finished (cursor w1)
            then Some ((False, None, None), w1)
            else do {
              (r2, w2) \<leftarrow> loadNext_decode K w1;
              (case r2 of
                 Some (b, err) \<Rightarrow> Some ((b, None, err), w2)
               | None \<Rightarrow>
                   let w3 = (if Len (responses (cursor w2)) = 1 \<and> \<not> finished (cursor w2)
                             then w2\<lparr>spawned := spawned w2 + 1\<rparr> else w2)
                   in if Len (buffer (cursor w3)) = 0 then Some ((False, None, None), w3)
                      else do {
                        (data, b) \<leftarrow> Pop (buffer (cursor w3));
                        let w4 = w3\<lparr>cursor := (cursor w3)\<lparr>buffer := b\<rparr>\<rparr>;
                        (case encoding_Decode K data of
                           Inl err \<Rightarrow> Some ((False, None, Some err), snd (handleError (Some err) w4))
                         | Inr d \<Rightarrow> Some ((True, Some d, None), snd (handleError None w4)))
                      })
            })
     }"

definition Next :: "'d decoders \<Rightarrow> World \<Rightarrow> ((bool \<times> 'd option) \<times> World) option" where
  "Next K w =
     (if closed (cursor w) then Some ((False, None), w)
      else do {
        ((hasMore, dest, err), w1) \<leftarrow> loadNext K w;
        let (e, w2) = handleError err w1;
        if e \<noteq> None then do { (_, w3) \<leftarrow> Close w2; Some ((False, dest), w3) }
        else Some ((hasMore, dest), w2)
      })"

definition IsNil :: "World \<Rightarrow> bool option" where
  "IsNil w =
     (if 0 < Len (buffer (cursor w)) then
        do {
          bufferedItem \<leftarrow> Peek (buffer (cursor w));
          if bufferedItem = IfaceNil then Some True
          else if bufferedItem = IfaceNil then Some True
          else Some False
        }
      else if 0 < Len (responses (cursor w)) then
        do {
          response \<leftarrow> Peek (responses (cursor w));
          if response = IfaceNil then Some True
          else (case response of
                  RawMessage r \<Rightarrow> if r = ''null'' then Some True else Some False
                | _ \<Rightarrow> Some False)
        }
      else Some True)"

text \<open>\<^verbatim>\<open>One(result)\<close> returns an error; beside it the model returns what was stored in \<^verbatim>\<open>*result\<close>.\<close>

definition One :: "'d decoders \<Rightarrow> World \<Rightarrow> ((error option \<times> 'd option) \<times> World) option" where
  "One K w =
     do {
       isnil \<leftarrow> IsNil w;
       if isnil then Some ((Some ErrEmptyResult, None), w)
       else do {
         ((hasResult, dest), w1) \<leftarrow> Next K w;
         (case Err w1 of
            Some err \<Rightarrow> do { (_, w2) \<leftarrow> Close w1; Some ((Some err, dest), w2) }
          | None \<Rightarrow>
              do {
                (cerr, w2) \<leftarrow> Close w1;
                (case cerr of
                   Some err \<Rightarrow> Some ((Some err, dest), w2)
                 | None \<Rightarrow>
                     if \<not> hasResult then Some ((Some ErrEmptyResult, dest), w2)
                     else Some ((None, dest), w2))
              })
       }
     }"

text \<open>
  Two abbreviations for statements about the cursor.  \<open>fetch_blocked\<close>: the loop of
  \<^verbatim>\<open>loadNext\<close> would run (no error recorded, nothing queued, stream not finished, cursor
  open) while the \<^verbatim>\<open>fetching\<close> flag is set.  \<open>status\<close>: the recorded error, the closed flag,
  the connection handle and the calls of the release callback so far.
\<close>

definition fetch_blocked :: "World \<Rightarrow> bool" where
  "fetch_blocked w \<longleftrightarrow>
     lastErr (cursor w) = None \<and> Len (buffer (cursor w)) = 0 \<and>
     Len (responses (cursor w)) = 0 \<and> \<not> finished (cursor w) \<and>
     \<not> closed (cursor w) \<and> fetching (cursor w) \<noteq> 0"

definition status :: "World \<Rightarrow> error option \<times> bool \<times> Connection option \<times> error option list" where
  "status w = (lastErr (cursor w), closed (cursor w), conn (cursor w), released w)"

text \<open>
  Draining a cursor.  \<open>Next_n K n\<close> calls \<^verbatim>\<open>Next\<close> \<open>n\<close> times and collects what the calls
  return.  \<open>batch_rows\<close> gives the rows that one queued raw batch decodes to (none when the
  element is not a raw message or does not decode), \<open>all_rows\<close> the rows of a list of batches.
  \<open>draining\<close>: an open cursor with no recorded error, whose stream is finished and whose two
  queues satisfy the invariant of the ring buffer.
\<close>

fun Next_n :: "'d decoders \<Rightarrow> nat \<Rightarrow> World \<Rightarrow> ((bool \<times> 'd option) list \<times> World) option" where
  "Next_n K 0 w = Some ([], w)"
| "Next_n K (Suc n) w =
     do { (r, w1) \<leftarrow> Next K w; (rs, w2) \<leftarrow> Next_n K n w1; Some (r # rs, w2) }"

definition batch_rows :: "'d decoders \<Rightarrow> (string \<times> iface) list \<Rightarrow> iface \<Rightarrow> iface list option" where
  "batch_rows K os e =
     (case e of
        RawMessage raw \<Rightarrow>
          (case json_Unmarshal K raw of
             Inl err \<Rightarrow> None
           | Inr v0 \<Rightarrow>
               (case recursivelyConvertPseudotype K v0 os of
                  Inl err \<Rightarrow> None
                | Inr v \<Rightarrow> Some (case v of JArray data \<Rightarrow> data | _ \<Rightarrow> [v])))
      | _ \<Rightarrow> None)"

definition all_rows :: "'d decoders \<Rightarrow> (string \<times> iface) list \<Rightarrow> iface list \<Rightarrow> iface list" where
  "all_rows K os es =
     concat (map (\<lambda>e. case batch_rows K os e of None \<Rightarrow> [] | Some rows \<Rightarrow> rows) es)"

definition draining :: "World \<Rightarrow> bool" where
  "draining w \<longleftrightarrow>
     lastErr (cursor w) = None \<and> \<not> closed (cursor w) \<and> finished (cursor w) \<and>
     queue_inv (buffer (cursor w)) \<and> queue_inv (responses (cursor w))"

section \<open>Sample data\<close>

text \<open>A full queue of capacity 8 whose oldest element sits at index 3.\<close>

definition wrapped_queue :: queue where
  "wrapped_queue =
     \<lparr>elems = [JNumber 6, JNumber 7, JNumber 8, JNumber 1, JNumber 2, JNumber 3, JNumber 4, JNumber 5],
      nelems = 8, popi = 3, pushi = 3\<rparr>"

text \<open>A short program over one queue.\<close>

definition sample_ops :: "qop list" where
  "sample_ops = [OpPush (JNumber 1), OpPush (JNumber 2), OpPop, OpLen, OpPeek]"

text \<open>
  Stand-ins for the collaborators of \<^verbatim>\<open>loadNext\<close>, for running the cursor on concrete
  replies.  \<open>json_literals\<close> agrees with \<^verbatim>\<open>json.Unmarshal\<close> on the JSON texts it lists and
  rejects every other text; none of the listed values holds a pseudotype, so the conversion
  returns them as they are.  \<open>generic_dest\<close> is a destination of type \<^verbatim>\<open>*interface{}\<close>, which
  takes any row.
\<close>

definition json_literals :: "string \<Rightarrow> error + iface" where
  "json_literals s =
     (if s = ''null'' then Inr IfaceNil
      else if s = ''[]'' then Inr (JArray [])
      else if s = ''1'' then Inr (JNumber 1)
      else if s = ''2'' then Inr (JNumber 2)
      else if s = ''true'' then Inr (JBool True)
      else Inl (DecodeError s))"

definition generic_dest :: "iface decoders" where
  "generic_dest =
     \<lparr>json_Unmarshal = json_literals,
      recursivelyConvertPseudotype = (\<lambda>v os. Inr v),
      encoding_Decode = Inr\<rparr>"

text \<open>
  A connection whose inner network connection is set, and the world around a cursor just
  made by \<^verbatim>\<open>newCursor\<close> with token 7, to which the pool has attached its release callback.
\<close>

definition live_conn :: "Connection option" where
  "live_conn = Some \<lparr>conn_conn = Some NetConn\<rparr>"

definition fresh_world :: "Connection option \<Rightarrow> (error + Response) list \<Rightarrow> World" where
  "fresh_world cn script =
     \<lparr>cursor = (newCursor cn 7 [])\<lparr>releaseConn := Some ReleaseFunc\<rparr>,
      continue_replies = script, stop_reply = None, sent = [], released = [], spawned = 0\<rparr>"

text \<open>The same world when \<^verbatim>\<open>conn.Query\<close> answers the \<^verbatim>\<open>STOP\<close> request with an error.\<close>

definition stop_fails_world :: World where
  "stop_fails_world = (fresh_world live_conn [])\<lparr>stop_reply := Some (QueryError ''stop failed'')\<rparr>"

text \<open>A cursor with a live connection that is already marked closed.\<close>

definition closed_world :: World where
  "closed_world = (fresh_world live_conn [])\<lparr>cursor := (cursor (fresh_world live_conn []))\<lparr>closed := True\<rparr>\<rparr>"

text \<open>
  A cursor made with a nil connection after one final reply with the single row \<^verbatim>\<open>1\<close> has
  been handed to \<^verbatim>\<open>extend\<close>, and a cursor with a live connection after one final reply with
  the single row \<^verbatim>\<open>null\<close>.
\<close>

definition detached_world :: World where
  "detached_world =
     \<lparr>cursor = (newCursor None 7 [])
        \<lparr>releaseConn := Some ReleaseFunc, finished := True,
          responses := \<lparr>elems = [RawMessage ''1'', IfaceNil, IfaceNil, IfaceNil,
                                  IfaceNil, IfaceNil, IfaceNil, IfaceNil],
                         nelems = 1, popi = 0, pushi = 1\<rparr>\<rparr>,
      continue_replies = [], stop_reply = None, sent = [], released = [], spawned = 0\<rparr>"

definition null_reply_world :: World where
  "null_reply_world =
     \<lparr>cursor = (newCursor live_conn 7 [])
        \<lparr>releaseConn := Some ReleaseFunc, finished := True,
          responses := \<lparr>elems = [RawMessage ''null'', IfaceNil, IfaceNil, IfaceNil,
                                  IfaceNil, IfaceNil, IfaceNil, IfaceNil],
                         nelems = 1, popi = 0, pushi = 1\<rparr>\<rparr>,
      continue_replies = [], stop_reply = None, sent = [], released = [], spawned = 0\<rparr>"

text \<open>
  Replies of the server: a partial reply whose only batch is the empty array, and a final
  reply with the row \<^verbatim>\<open>1\<close>.
\<close>

definition partial_empty :: Response where
  "partial_empty = \<lparr>Response_Type = Response_SUCCESS_PARTIAL, Response_Responses = [''[]'']\<rparr>"

definition final_one :: Response where
  "final_one = \<lparr>Response_Type = Response_SUCCESS_SEQUENCE, Response_Responses = [''1'']\<rparr>"

text \<open>
  The world in which the first \<^verbatim>\<open>Next\<close> on a fresh cursor leaves it when the \<^verbatim>\<open>CONTINUE\<close>
  request has failed: the request is logged and the \<^verbatim>\<open>fetching\<close> flag is still set.
\<close>

definition failed_fetch_world :: World where
  "failed_fetch_world =
     (fresh_world live_conn [])
       \<lparr>cursor := (cursor (fresh_world live_conn []))\<lparr>fetching := 1\<rparr>,
        sent := [\<lparr>Query_Type = Query_CONTINUE, Query_Token = 7\<rparr>]\<rparr>"

section \<open>Properties of the queue\<close>

lemma copy_make: "length src \<le> n \<Longrightarrow> copy (make_slice n) src = src @ replicate (n - length src) IfaceNil"
  by (simp add: copy_def make_slice_def min_def)

lemma clear_from_eq:
  "i + k = length a \<Longrightarrow> clear_from i k a = take i a @ replicate k IfaceNil"
proof (induction k arbitrary: i a)
  case 0
  then show ?case by simp
next
  case (Suc k)
  have "clear_from (Suc i) k (a[i := IfaceNil]) = take (Suc i) (a[i := IfaceNil]) @ replicate k IfaceNil"
    using Suc.prems by (intro Suc.IH) simp
  also have "take (Suc i) (a[i := IfaceNil]) = take i a @ [IfaceNil]"
    using Suc.prems by (simp add: take_Suc_conv_app_nth)
  finally show ?case by (simp add: replicate_app_Cons_same)
qed

lemma clear_all_eq: "clear_all a = replicate (length a) IfaceNil"
  by (simp add: clear_all_def clear_from_eq)

lemma newcap_of_gt: "n < newcap_of n"
  by (simp add: newcap_of_def div_greater_zero_iff)

lemma mod_add_lt: "p < n \<Longrightarrow> i < n \<Longrightarrow> (p + i) mod n = (if p + i < n then p + i else p + i - n)" for p :: nat
  by (simp add: mod_if)

lemma expand_popi0:
  "popi q = 0 \<Longrightarrow>
   expand q = Some (q\<lparr>elems := elems q @ replicate (newcap_of (length (elems q)) - length (elems q)) IfaceNil,
                      pushi := length (elems q)\<rparr>, replicate (length (elems q)) IfaceNil)"
  using newcap_of_gt[of "length (elems q)"]
  by (simp add: expand_def Let_def copy_make clear_all_eq)

lemma expand_popi_pos:
  assumes "0 < popi q" "popi q \<le> length (elems q)"
  shows "expand q = Some (q\<lparr>elems := take (popi q) (elems q) @
                                 replicate (newcap_of (length (elems q)) - length (elems q)) IfaceNil @
                                 drop (popi q) (elems q),
                      popi := newcap_of (length (elems q)) - (length (elems q) - popi q)\<rparr>,
                  replicate (length (elems q)) IfaceNil)"
proof -
  let ?n = "length (elems q)" and ?p = "popi q"
  let ?N = "newcap_of ?n"
  have N: "?n < ?N" by (rule newcap_of_gt)
  have e1: "copy (make_slice ?N) (take ?p (elems q)) = take ?p (elems q) @ replicate (?N - ?p) IfaceNil"
    using assms N by (simp add: copy_def make_slice_def min_absorb1 min_absorb2)
  let ?np = "?N - (?n - ?p)"
  have np: "?p \<le> ?np" "?np \<le> ?N" using assms N by auto
  have lenA: "length (take ?p (elems q)) = ?p" using assms by simp
  have npp: "?np - ?p = ?N - ?n" "?N - ?p - (?N - ?n) = ?n - ?p" "?N - ?n \<le> ?N - ?p"
    using assms N by auto
  have t: "take ?np (take ?p (elems q) @ replicate (?N - ?p) IfaceNil)
           = take ?p (elems q) @ replicate (?N - ?n) IfaceNil"
    using np npp by (simp only: take_append lenA take_all_iff take_replicate min_absorb1) simp
  have d: "drop ?np (take ?p (elems q) @ replicate (?N - ?p) IfaceNil) = replicate (?n - ?p) IfaceNil"
    using np npp by (simp only: drop_append lenA drop_all drop_replicate) simp
  have c: "copy (replicate (?n - ?p) IfaceNil) (drop ?p (elems q)) = drop ?p (elems q)"
    by (simp add: copy_def)
  show ?thesis
    unfolding expand_def Let_def using assms
    by (simp only: e1 t d c clear_all_eq) simp
qed


lemma contents_nth:
  "i < nelems q \<Longrightarrow> contents q ! i = elems q ! ((popi q + i) mod length (elems q))"
  by (simp add: contents_def)

lemma length_contents: "length (contents q) = nelems q"
  by (simp add: contents_def)

lemma queue_inv_zero: "queue_inv queue_zero"
  by (simp add: queue_inv_def queue_zero_def)

lemma contents_queue_zero: "contents queue_zero = []"
  by (simp add: contents_def queue_zero_def)

text \<open>expand on a full queue\<close>

lemma expand_contents:
  assumes "queue_inv q"
  shows "\<exists>q'. expand q = Some (q', replicate (length (elems q)) IfaceNil) \<and>
              length (elems q') = newcap_of (length (elems q)) \<and>
              nelems q' = nelems q \<and> contents q' = contents q \<and>
              popi q' < length (elems q') \<and>
              (nelems q = length (elems q) \<longrightarrow> queue_inv q')"
proof (cases "popi q = 0")
  case True
  let ?n = "length (elems q)"
  let ?q' = "q\<lparr>elems := elems q @ replicate (newcap_of ?n - ?n) IfaceNil, pushi := ?n\<rparr>"
  have N: "?n < newcap_of ?n" by (rule newcap_of_gt)
  have k: "nelems q \<le> ?n" using assms by (simp add: queue_inv_def)
  have "contents ?q' = contents q"
    unfolding contents_def using True N k
    by (auto simp: nth_append)
  moreover have "nelems q = ?n \<longrightarrow> queue_inv ?q'"
    using True N by (auto simp: queue_inv_def)
  ultimately show ?thesis
    using expand_popi0[OF True] N True by auto
next
  case False
  let ?n = "length (elems q)" and ?p = "popi q"
  let ?N = "newcap_of ?n"
  let ?E = "take ?p (elems q) @ replicate (?N - ?n) IfaceNil @ drop ?p (elems q)"
  let ?P = "?N - (?n - ?p)"
  let ?q' = "q\<lparr>elems := ?E, popi := ?P\<rparr>"
  have N: "?n < ?N" by (rule newcap_of_gt)
  from assms False have p: "0 < ?p" "?p < ?n" and k: "nelems q \<le> ?n"
    and pu: "pushi q = (?p + nelems q) mod ?n"
    by (auto simp: queue_inv_def split: if_splits)
  have lenE: "length ?E = ?N" using p N by simp
  have nthE: "?E ! ((?P + i) mod ?N) = elems q ! ((?p + i) mod ?n)" if "i < ?n" for i
  proof (cases "?p + i < ?n")
    case True
    let ?A = "take ?p (elems q)" and ?B = "replicate (?N - ?n) IfaceNil" and ?C = "drop ?p (elems q)"
    have lA: "length ?A = ?p" and lB: "length ?B = ?N - ?n" using p by simp_all
    have j: "(?P + i) mod ?N = ?P + i" using True p N by simp
    have "\<not> ?P + i < length ?A" using p N lA by simp
    then have "?E ! (?P + i) = (?B @ ?C) ! (?P + i - ?p)"
      by (simp only: nth_append lA if_False)
    also have "?P + i - ?p = (?N - ?n) + i" using p N by simp
    also have "(?B @ ?C) ! ((?N - ?n) + i) = ?C ! i"
      by (simp only: nth_append_length_plus[of ?B ?C i, unfolded lB])
    also have "?C ! i = elems q ! (?p + i)" using True by simp
    finally show ?thesis using True j by simp
  next
    case F: False
    let ?A = "take ?p (elems q)"
    have lA: "length ?A = ?p" using p by simp
    have j: "(?P + i) mod ?N = ?p + i - ?n" using F p N that by (simp add: mod_if)
    have j': "(?p + i) mod ?n = ?p + i - ?n" using F p that by (simp add: mod_if)
    have lt: "?p + i - ?n < ?p" using F p that by simp
    then have "?E ! (?p + i - ?n) = ?A ! (?p + i - ?n)"
      by (simp only: nth_append lA if_True)
    also have "\<dots> = elems q ! (?p + i - ?n)" using lt by simp
    finally show ?thesis using j j' by simp
  qed
  have "contents ?q' = contents q"
    unfolding contents_def using k nthE lenE by (auto simp del: length_append)
  moreover have "nelems q = ?n \<longrightarrow> queue_inv ?q'"
  proof
    assume full: "nelems q = ?n"
    have "(?P + ?n) mod ?N = ?p" using p N by (simp add: mod_if)
    moreover have "pushi q = ?p" using pu full p by simp
    ultimately show "queue_inv ?q'" using p N full by (simp add: queue_inv_def)
  qed
  ultimately show ?thesis
    using expand_popi_pos[of q] p N by auto
qed


lemma mod_add_neq:
  fixes p :: nat
  assumes "i < k" "k < n"
  shows "(p + i) mod n \<noteq> (p + k) mod n"
proof -
  define r where "r = (p + i) mod n"
  define d where "d = k - i"
  have r: "r < n" using assms by (simp add: r_def)
  have d: "0 < d" "d < n" using assms by (simp_all add: d_def)
  have "p + k = (p + i) + d" using assms by (simp add: d_def)
  then have "(p + k) mod n = (r + d) mod n"
    by (simp only: r_def mod_add_left_eq)
  moreover have "(r + d) mod n \<noteq> r"
    using r d by (auto simp: mod_if)
  ultimately show ?thesis by (simp add: r_def)
qed

lemma push_slot:
  fixes x :: iface
  assumes "queue_inv q" "nelems q < length (elems q)"
  defines "q' \<equiv> q\<lparr>elems := (elems q)[pushi q := x], nelems := nelems q + 1,
                     pushi := (pushi q + 1) mod length (elems q)\<rparr>"
  shows "queue_inv q'" "contents q' = contents q @ [x]"
proof -
  let ?n = "length (elems q)" and ?p = "popi q" and ?k = "nelems q"
  from assms(1,2) have ne: "elems q \<noteq> []" and p: "?p < ?n"
    and pu: "pushi q = (?p + ?k) mod ?n"
    by (auto simp: queue_inv_def split: if_splits)
  have "(pushi q + 1) mod ?n = (?p + (?k + 1)) mod ?n"
    unfolding pu by (simp add: mod_Suc_eq)
  then show "queue_inv q'" using assms(2) p ne by (simp add: queue_inv_def q'_def)
  have old: "(elems q)[pushi q := x] ! ((?p + i) mod ?n) = elems q ! ((?p + i) mod ?n)" if "i < ?k" for i
    using that assms(2) mod_add_neq[of i ?k ?n ?p] by (simp add: pu)
  have new: "(elems q)[pushi q := x] ! ((?p + ?k) mod ?n) = x"
    using ne by (simp add: pu)
  show "contents q' = contents q @ [x]"
    unfolding contents_def q'_def using old new by simp
qed

lemma Push_inv:
  assumes "queue_inv q"
  shows "\<exists>q'. Push x q = Some q' \<and> queue_inv q' \<and> contents q' = contents q @ [x] \<and>
              nelems q' = nelems q + 1 \<and> length (elems q) \<le> length (elems q')"
proof (cases "nelems q = length (elems q)")
  case True
  from expand_contents[OF assms] True obtain q1 where
    ex: "expand q = Some (q1, replicate (length (elems q)) IfaceNil)"
    and len: "length (elems q1) = newcap_of (length (elems q))"
    and k: "nelems q1 = nelems q" and c: "contents q1 = contents q" and inv1: "queue_inv q1"
    by blast
  have lt: "nelems q1 < length (elems q1)"
    using True k len newcap_of_gt[of "length (elems q)"] by simp
  have pu: "pushi q1 < length (elems q1)"
    using inv1 lt by (auto simp: queue_inv_def split: if_splits)
  show ?thesis
    using push_slot[OF inv1 lt, of x] True ex pu k c len lt newcap_of_gt[of "length (elems q)"]
    by (simp add: Push_def)
next
  case False
  then have lt: "nelems q < length (elems q)" using assms by (simp add: queue_inv_def)
  have pu: "pushi q < length (elems q)"
    using assms lt by (auto simp: queue_inv_def split: if_splits)
  show ?thesis
    using push_slot[OF assms lt, of x] False pu by (simp add: Push_def)
qed

lemma Pop_empty: "nelems q = 0 \<Longrightarrow> Pop q = Some (IfaceNil, q)"
  by (simp add: Pop_def)

lemma Pop_step:
  assumes "nelems q \<le> length (elems q)" "popi q < length (elems q)" "0 < nelems q"
  shows "\<exists>q'. Pop q = Some (hd (contents q), q') \<and> contents q' = tl (contents q) \<and>
              nelems q' = nelems q - 1 \<and> length (elems q') = length (elems q) \<and>
              popi q' < length (elems q') \<and> pushi q' = pushi q \<and>
              popi q' = (popi q + 1) mod length (elems q) \<and>
              elems q' ! popi q = IfaceNil"
proof -
  let ?n = "length (elems q)" and ?p = "popi q" and ?k = "nelems q"
  let ?q' = "q\<lparr>elems := (elems q)[?p := IfaceNil], nelems := ?k - 1, popi := (?p + 1) mod ?n\<rparr>"
  note p = assms(2) and k = assms(1)
  have hd: "hd (contents q) = elems q ! ?p"
    using assms(3) p by (simp add: contents_def hd_map upt_conv_Cons)
  have pop: "Pop q = Some (elems q ! ?p, ?q')"
    using assms(3) p by (simp add: Pop_def)
  have nth: "(elems q)[?p := IfaceNil] ! (((?p + 1) mod ?n + i) mod ?n) = elems q ! ((?p + Suc i) mod ?n)"
    if "i < ?k - 1" for i
  proof -
    have e: "((?p + 1) mod ?n + i) mod ?n = (?p + Suc i) mod ?n"
      by (simp add: mod_add_left_eq)
    have "(?p + 0) mod ?n \<noteq> (?p + Suc i) mod ?n"
      using that k by (intro mod_add_neq) auto
    then have "(?p + Suc i) mod ?n \<noteq> ?p" using p by simp
    then show ?thesis unfolding e by simp
  qed
  have "contents ?q' = map (\<lambda>i. elems q ! ((?p + Suc i) mod ?n)) [0..<?k - 1]"
    unfolding contents_def using nth by simp
  also have "\<dots> = map (\<lambda>i. elems q ! ((?p + i) mod ?n)) [Suc 0..<?k]"
    by (rule nth_equalityI) simp_all
  also have "\<dots> = tl (contents q)"
    unfolding contents_def using assms(3) by (simp add: upt_conv_Cons)
  finally have c: "contents ?q' = tl (contents q)" .
  have "0 < ?n" using p by (cases "?n") simp_all
  then have "(?p + 1) mod ?n < ?n" by (rule mod_less_divisor)
  then show ?thesis using pop hd c p by simp
qed

lemma Pop_inv:
  assumes "queue_inv q" "0 < nelems q"
  shows "\<exists>q'. Pop q = Some (hd (contents q), q') \<and> queue_inv q' \<and> contents q' = tl (contents q) \<and>
              nelems q' = nelems q - 1 \<and> length (elems q') = length (elems q) \<and>
              elems q' ! popi q = IfaceNil"
proof -
  let ?n = "length (elems q)" and ?p = "popi q" and ?k = "nelems q"
  from assms have ne: "elems q \<noteq> []" and p: "?p < ?n" and k: "?k \<le> ?n"
    and pu: "pushi q = (?p + ?k) mod ?n"
    by (auto simp: queue_inv_def split: if_splits)
  from Pop_step[OF k p assms(2)] obtain q' where
    pop: "Pop q = Some (hd (contents q), q')" and c: "contents q' = tl (contents q)"
    and k': "nelems q' = ?k - 1" and n': "length (elems q') = ?n"
    and p': "popi q' < length (elems q')" and pu': "pushi q' = pushi q"
    and pp: "popi q' = (?p + 1) mod ?n" and cl: "elems q' ! ?p = IfaceNil"
    by blast
  have "((?p + 1) mod ?n + (?k - 1)) mod ?n = ((?p + 1) + (?k - 1)) mod ?n"
    by (simp only: mod_add_left_eq)
  also have "(?p + 1) + (?k - 1) = ?p + ?k" using assms(2) by simp
  finally have "(popi q' + nelems q') mod length (elems q') = pushi q'"
    using pp k' n' pu' pu by simp
  then have "queue_inv q'" using p' k k' n' by (auto simp: queue_inv_def)
  then show ?thesis using pop c k' n' cl by blast
qed

lemma Peek_inv:
  assumes "queue_inv q"
  shows "Peek q = Some (if nelems q = 0 then IfaceNil else hd (contents q))"
proof (cases "nelems q = 0")
  case True
  then show ?thesis by (simp add: Peek_def)
next
  case False
  with assms have p: "popi q < length (elems q)" by (auto simp: queue_inv_def split: if_splits)
  have "hd (contents q) = elems q ! popi q"
    using False p by (simp add: contents_def hd_map upt_conv_Cons)
  then show ?thesis using False p by (simp add: Peek_def)
qed


lemma pop_n_contents:
  assumes "nelems q \<le> length (elems q)" "elems q \<noteq> [] \<longrightarrow> popi q < length (elems q)" "n \<le> nelems q"
  shows "\<exists>q'. pop_n n q = Some (take n (contents q), q')"
  using assms
proof (induction n arbitrary: q)
  case 0
  then show ?case by simp
next
  case (Suc n)
  then have pos: "0 < nelems q" and ne: "elems q \<noteq> []" by auto
  with Suc.prems have p: "popi q < length (elems q)" by simp
  from Pop_step[OF Suc.prems(1) p pos] obtain q1 where
    pop: "Pop q = Some (hd (contents q), q1)" and c: "contents q1 = tl (contents q)"
    and k1: "nelems q1 = nelems q - 1" and n1: "length (elems q1) = length (elems q)"
    and p1: "popi q1 < length (elems q1)"
    by blast
  have "\<exists>q'. pop_n n q1 = Some (take n (contents q1), q')"
    using Suc.prems k1 n1 p1 by (intro Suc.IH) auto
  then obtain q' where rest: "pop_n n q1 = Some (take n (contents q1), q')" ..
  have "contents q \<noteq> []" using pos length_contents[of q] by auto
  then have "take (Suc n) (contents q) = hd (contents q) # take n (tl (contents q))"
    by (cases "contents q") simp_all
  then show ?case using pop rest c by simp
qed

lemma drain_contents:
  assumes "nelems q \<le> length (elems q)" "elems q \<noteq> [] \<longrightarrow> popi q < length (elems q)"
  shows "drain q = Some (contents q)"
proof -
  from pop_n_contents[OF assms, of "nelems q"] obtain q' where
    "pop_n (nelems q) q = Some (take (nelems q) (contents q), q')" by auto
  then show ?thesis by (simp add: drain_def Len_def length_contents)
qed

text \<open>
  Claim C6.  On every queue state that satisfies the invariant of the ring buffer, \<^verbatim>\<open>expand\<close>
  returns; the new capacity is 8 when the old one is 0, twice the old one when that is below
  1024, and the old one plus a quarter of it otherwise; the number of stored elements is
  unchanged; the values that \<^verbatim>\<open>Pop\<close> hands out afterwards are the ones it would have handed
  out before, in the same order, also when the stored elements wrap around the end of the old
  array; and every slot of the old array is nil.  When the queue was full, which is the only
  state in which \<^verbatim>\<open>Push\<close> calls \<^verbatim>\<open>expand\<close>, the result satisfies the invariant again.
\<close>

theorem expand_keeps_pop_order:
  assumes "queue_inv q"
  shows "\<exists>q' old. expand q = Some (q', old) \<and>
           length (elems q') =
             (if length (elems q) = 0 then 8
              else if length (elems q) < 1024 then 2 * length (elems q)
              else length (elems q) + length (elems q) div 4) \<and>
           Len q' = Len q \<and>
           drain q = Some (contents q) \<and>
           drain q' = drain q \<and>
           old = replicate (length (elems q)) IfaceNil \<and>
           (Len q = length (elems q) \<longrightarrow> queue_inv q')"
proof -
  from expand_contents[OF assms] obtain q' where
    ex: "expand q = Some (q', replicate (length (elems q)) IfaceNil)"
    and len: "length (elems q') = newcap_of (length (elems q))"
    and k: "nelems q' = nelems q" and c: "contents q' = contents q"
    and p: "popi q' < length (elems q')"
    and full: "nelems q = length (elems q) \<longrightarrow> queue_inv q'"
    by blast
  have d: "drain q = Some (contents q)"
    using assms by (intro drain_contents) (auto simp: queue_inv_def split: if_splits)
  have "nelems q' \<le> length (elems q')"
    using assms k len newcap_of_gt[of "length (elems q)"] by (simp add: queue_inv_def)
  then have d': "drain q' = Some (contents q')"
    using p by (intro drain_contents) auto
  show ?thesis
    using ex len k c d d' full by (simp add: Len_def newcap_of_def)
qed

theorem expand_keeps_pop_order_witness:
  "queue_inv wrapped_queue \<and>
   (\<exists>q' old. expand wrapped_queue = Some (q', old) \<and> length (elems q') = 16 \<and>
      drain q' = Some [JNumber 1, JNumber 2, JNumber 3, JNumber 4, JNumber 5, JNumber 6, JNumber 7, JNumber 8] \<and>
      old = replicate 8 IfaceNil \<and> queue_inv q')"
proof -
  have i: "queue_inv wrapped_queue"
    by (simp add: queue_inv_def wrapped_queue_def)
  have c: "contents wrapped_queue =
      [JNumber 1, JNumber 2, JNumber 3, JNumber 4, JNumber 5, JNumber 6, JNumber 7, JNumber 8]"
    by (simp add: contents_def wrapped_queue_def upt_conv_Cons)
  have l: "length (elems wrapped_queue) = 8" "Len wrapped_queue = 8"
    by (simp_all add: wrapped_queue_def Len_def)
  show ?thesis
    using i expand_keeps_pop_order[OF i] by (auto simp: c l)
qed

lemma apply_qop_inv:
  assumes "queue_inv q"
  shows "\<exists>r q'. apply_qop op q = Some (r, q') \<and> queue_inv q' \<and>
           Len q' = live_count [op] (Len q) \<and> length (elems q) \<le> length (elems q')"
proof (cases op)
  case (OpPush x)
  from Push_inv[OF assms, of x] show ?thesis
    by (auto simp: apply_qop_def OpPush Len_def)
next
  case OpPop
  show ?thesis
  proof (cases "nelems q = 0")
    case True
    then show ?thesis using assms by (simp add: apply_qop_def OpPop Len_def Pop_empty)
  next
    case False
    then have "0 < nelems q" by simp
    from Pop_inv[OF assms this] show ?thesis
      by (auto simp: apply_qop_def OpPop Len_def)
  qed
next
  case OpPeek
  then show ?thesis using assms Peek_inv[OF assms] by (simp add: apply_qop_def)
next
  case OpLen
  then show ?thesis using assms by (simp add: apply_qop_def)
qed

lemma live_count_append: "live_count (ops @ ops') n = live_count ops' (live_count ops n)"
  by (induction ops n rule: live_count.induct) simp_all

lemma run_qops_inv:
  assumes "queue_inv q0"
  shows "\<exists>q. run_qops ops q0 = Some q \<and> queue_inv q \<and>
           Len q = live_count ops (Len q0) \<and> length (elems q0) \<le> length (elems q)"
  using assms
proof (induction ops arbitrary: q0)
  case Nil
  then show ?case by simp
next
  case (Cons op ops)
  from apply_qop_inv[OF Cons.prems, of op] obtain r q1 where
    s: "apply_qop op q0 = Some (r, q1)" and i: "queue_inv q1"
    and l: "Len q1 = live_count [op] (Len q0)" and c: "length (elems q0) \<le> length (elems q1)"
    by blast
  from Cons.IH[OF i] obtain q where
    r: "run_qops ops q1 = Some q" and i': "queue_inv q"
    and l': "Len q = live_count ops (Len q1)" and c': "length (elems q1) \<le> length (elems q)"
    by blast
  have "live_count (op # ops) (Len q0) = live_count ops (live_count [op] (Len q0))"
    using live_count_append[of "[op]" ops "Len q0"] by simp
  then show ?case using s r i' l l' c c' by simp
qed

text \<open>
  Claim C7.  Every sequence of \<^verbatim>\<open>Push\<close>, \<^verbatim>\<open>Pop\<close>, \<^verbatim>\<open>Peek\<close> and \<^verbatim>\<open>Len\<close> calls on a queue that
  starts as the zero value runs without a panic, and in the state \<open>q\<close> it reaches: \<^verbatim>\<open>Len()\<close> is
  the number of elements pushed and not yet popped; when that is zero \<^verbatim>\<open>Pop\<close> returns nil and
  leaves the queue as it is; when it is positive \<^verbatim>\<open>Pop\<close> succeeds, the slot it read is nil
  afterwards and the count is one less; and no operation whatever makes the backing array
  shorter.
\<close>

theorem queue_len_pop_capacity:
  "\<exists>q. run_qops ops queue_zero = Some q \<and>
        Len q = live_count ops 0 \<and>
        (Len q = 0 \<longrightarrow> Pop q = Some (IfaceNil, q)) \<and>
        (0 < Len q \<longrightarrow>
           (\<exists>x q'. Pop q = Some (x, q') \<and> elems q' ! popi q = IfaceNil \<and> Len q' = Len q - 1)) \<and>
        (\<forall>op. \<exists>r q'. apply_qop op q = Some (r, q') \<and> length (elems q) \<le> length (elems q'))"
proof -
  from run_qops_inv[OF queue_inv_zero, of ops] obtain q where
    r: "run_qops ops queue_zero = Some q" and i: "queue_inv q"
    and l: "Len q = live_count ops (Len queue_zero)"
    by blast
  have l0: "Len q = live_count ops 0" using l by (simp add: Len_def queue_zero_def)
  have e: "Len q = 0 \<longrightarrow> Pop q = Some (IfaceNil, q)"
    by (simp add: Len_def Pop_empty)
  have p: "0 < Len q \<longrightarrow>
           (\<exists>x q'. Pop q = Some (x, q') \<and> elems q' ! popi q = IfaceNil \<and> Len q' = Len q - 1)"
    using Pop_inv[OF i] by (auto simp: Len_def)
  have c: "\<forall>op. \<exists>r q'. apply_qop op q = Some (r, q') \<and> length (elems q) \<le> length (elems q')"
    using apply_qop_inv[OF i] by blast
  show ?thesis
    by (intro exI[of _ q] conjI) (fact r, fact l0, fact e, fact p, fact c)
qed

theorem queue_len_pop_capacity_witness:
  "Pop queue_zero = Some (IfaceNil, queue_zero) \<and>
   (\<exists>q. run_qops sample_ops queue_zero = Some q \<and>
        Len q = 1 \<and>
        (\<exists>x q'. Pop q = Some (x, q') \<and> elems q' ! popi q = IfaceNil \<and> Len q' = 0) \<and>
        (\<exists>r q'. apply_qop (OpPush (JNumber 3)) q = Some (r, q') \<and> length (elems q) \<le> length (elems q')))"
proof -
  have a: "Pop queue_zero = Some (IfaceNil, queue_zero)"
    using queue_len_pop_capacity[of "[]"] by (simp add: Len_def queue_zero_def)
  have b: "live_count sample_ops 0 = 1"
    by (simp add: sample_ops_def)
  from queue_len_pop_capacity[of sample_ops] obtain q where
    q: "run_qops sample_ops queue_zero = Some q \<and>
        Len q = live_count sample_ops 0 \<and>
        (Len q = 0 \<longrightarrow> Pop q = Some (IfaceNil, q)) \<and>
        (0 < Len q \<longrightarrow>
           (\<exists>x q'. Pop q = Some (x, q') \<and> elems q' ! popi q = IfaceNil \<and> Len q' = Len q - 1)) \<and>
        (\<forall>op. \<exists>r q'. apply_qop op q = Some (r, q') \<and> length (elems q) \<le> length (elems q'))" ..
  from q have r: "run_qops sample_ops queue_zero = Some q"
    by (rule conjunct1)
  from q have l: "Len q = live_count sample_ops 0"
    by (rule conjunct2[THEN conjunct1])
  from q have p: "0 < Len q \<longrightarrow>
           (\<exists>x q'. Pop q = Some (x, q') \<and> elems q' ! popi q = IfaceNil \<and> Len q' = Len q - 1)"
    by (rule conjunct2[THEN conjunct2, THEN conjunct2, THEN conjunct1])
  from q have c: "\<forall>op. \<exists>r q'. apply_qop op q = Some (r, q') \<and> length (elems q) \<le> length (elems q')"
    by (rule conjunct2[THEN conjunct2, THEN conjunct2, THEN conjunct2])
  have l1: "Len q = 1" using l b by simp
  with p have p': "\<exists>x q'. Pop q = Some (x, q') \<and> elems q' ! popi q = IfaceNil \<and> Len q' = 0"
    by simp
  from c have c': "\<exists>r q'. apply_qop (OpPush (JNumber 3)) q = Some (r, q') \<and> length (elems q) \<le> length (elems q')"
    by blast
  show ?thesis
    by (intro conjI exI[of _ q]) (fact a, fact r, fact l1, fact p', fact c')
qed

section \<open>Properties of the cursor\<close>

lemma handleError_unset:
  "lastErr (cursor w) = None \<Longrightarrow> handleError err w = (None, w)"
  by (simp add: handleError_def)

lemma handleError_set:
  "lastErr (cursor w) = Some e0 \<Longrightarrow>
   handleError err w = (err, w\<lparr>cursor := (cursor w)\<lparr>lastErr := err\<rparr>\<rparr>)"
  by (simp add: handleError_def)

lemma handleError_frame:
  "closed (cursor (snd (handleError err w))) = closed (cursor w)"
  "finished (cursor (snd (handleError err w))) = finished (cursor w)"
  "buffer (cursor (snd (handleError err w))) = buffer (cursor w)"
  "responses (cursor (snd (handleError err w))) = responses (cursor w)"
  "opts (cursor (snd (handleError err w))) = opts (cursor w)"
  "conn (cursor (snd (handleError err w))) = conn (cursor w)"
  "sent (snd (handleError err w)) = sent w"
  "released (snd (handleError err w)) = released w"
  by (simp_all add: handleError_def Let_def)

lemma handleError_nil_result: "fst (handleError None w) = None"
  by (simp add: handleError_def Let_def)

text \<open>
  Claim C9.  Whenever the row buffer and the raw-batch queue are both empty, whatever the
  other fields of the cursor are, \<^verbatim>\<open>IsNil\<close> returns true and \<^verbatim>\<open>One\<close> returns \<^verbatim>\<open>ErrEmptyResult\<close>
  at once: nothing is stored in the destination and the world is the one before the call, so
  no request was sent, the cursor was not closed, its connection was not detached and the
  release callback was not invoked.
\<close>

theorem One_on_empty_queues:
  assumes "Len (buffer (cursor w)) = 0" "Len (responses (cursor w)) = 0"
  shows "IsNil w = Some True \<and> One K w = Some ((Some ErrEmptyResult, None), w)"
  using assms by (simp add: IsNil_def One_def)

theorem One_on_empty_queues_witness:
  "Len (buffer (cursor (fresh_world live_conn []))) = 0 \<and>
   Len (responses (cursor (fresh_world live_conn []))) = 0 \<and>
   \<not> finished (cursor (fresh_world live_conn [])) \<and>
   IsNil (fresh_world live_conn []) = Some True \<and>
   One generic_dest (fresh_world live_conn []) =
     Some ((Some ErrEmptyResult, None), fresh_world live_conn [])"
proof -
  have e: "Len (buffer (cursor (fresh_world live_conn []))) = 0"
          "Len (responses (cursor (fresh_world live_conn []))) = 0"
    by (simp_all add: fresh_world_def newCursor_def queue_zero_def Len_def)
  have f: "\<not> finished (cursor (fresh_world live_conn []))"
    by (simp add: fresh_world_def newCursor_def)
  show ?thesis
    using e f One_on_empty_queues[OF e, of generic_dest] by simp
qed

text \<open>
  Claim C10.  On a cursor that is not marked closed and whose connection handle is absent
  (\<^verbatim>\<open>conn\<close> is nil, or the inner connection of \<^verbatim>\<open>conn\<close> is nil), \<^verbatim>\<open>Close\<close> returns nil and
  leaves the whole world as it was: the closed flag stays unset, nothing is detached, no
  request is sent and the release callback is not invoked.  A \<^verbatim>\<open>Next\<close> after such a \<^verbatim>\<open>Close\<close>
  is therefore the \<^verbatim>\<open>Next\<close> on the untouched cursor, and it does not take the early return for
  a closed cursor but goes on to \<^verbatim>\<open>loadNext\<close>.
\<close>

theorem Close_without_connection:
  assumes "\<not> closed (cursor w)"
      and "conn (cursor w) = None \<or> (\<exists>cn. conn (cursor w) = Some cn \<and> conn_conn cn = None)"
  shows "Close w = Some (None, w) \<and>
         (Close w \<bind> (\<lambda>(e, w'). Next K w')) = Next K w \<and>
         Next K w =
           loadNext K w \<bind>
             (\<lambda>((hasMore, dest, err), w1).
                let (e, w2) = handleError err w1
                in if e \<noteq> None then Close w2 \<bind> (\<lambda>(_, w3). Some ((False, dest), w3))
                   else Some ((hasMore, dest), w2))"
proof -
  have c: "Close w = Some (None, w)"
    using assms by (auto simp: Close_def)
  have n: "Next K w =
           loadNext K w \<bind>
             (\<lambda>((hasMore, dest, err), w1).
                let (e, w2) = handleError err w1
                in if e \<noteq> None then Close w2 \<bind> (\<lambda>(_, w3). Some ((False, dest), w3))
                   else Some ((hasMore, dest), w2))"
    using assms(1) by (simp add: Next_def)
  show ?thesis using c n by simp
qed


lemma detached_world_reached:
  "extend \<lparr>Response_Type = Response_SUCCESS_SEQUENCE, Response_Responses = [''1'']\<rparr>
     (fresh_world None []) = Some detached_world"
  by code_simp

theorem Close_without_connection_witness:
  "\<not> closed (cursor detached_world) \<and> conn (cursor detached_world) = None \<and>
   Close detached_world = Some (None, detached_world) \<and>
   (Close detached_world \<bind> (\<lambda>(e, w'). Next generic_dest w')) = Next generic_dest detached_world \<and>
   map_option fst (Next generic_dest detached_world) = Some (True, Some (JNumber 1)) \<and>
   \<not> closed (cursor (fresh_world (Some \<lparr>conn_conn = None\<rparr>) [])) \<and>
   conn (cursor (fresh_world (Some \<lparr>conn_conn = None\<rparr>) [])) = Some \<lparr>conn_conn = None\<rparr> \<and>
   Close (fresh_world (Some \<lparr>conn_conn = None\<rparr>) []) =
     Some (None, fresh_world (Some \<lparr>conn_conn = None\<rparr>) [])"
proof -
  have a: "\<not> closed (cursor detached_world)"
    by (simp add: detached_world_def newCursor_def)
  have b: "conn (cursor detached_world) = None"
    by (simp add: detached_world_def newCursor_def)
  have n: "map_option fst (Next generic_dest detached_world) = Some (True, Some (JNumber 1))"
    by code_simp
  from b have b': "conn (cursor detached_world) = None \<or>
      (\<exists>cn. conn (cursor detached_world) = Some cn \<and> conn_conn cn = None)" ..
  let ?w = "fresh_world (Some \<lparr>conn_conn = None\<rparr>) []"
  have a2: "\<not> closed (cursor ?w)"
    by (simp add: fresh_world_def newCursor_def)
  have b2: "conn (cursor ?w) = Some \<lparr>conn_conn = None\<rparr>"
    by (simp add: fresh_world_def newCursor_def)
  then have b2': "conn (cursor ?w) = None \<or> (\<exists>cn. conn (cursor ?w) = Some cn \<and> conn_conn cn = None)"
    by simp
  have c2: "Close ?w = Some (None, ?w)"
    using Close_without_connection[OF a2 b2', of generic_dest] by (rule conjunct1)
  show ?thesis
    using a b n a2 b2 c2 Close_without_connection[OF a b', of generic_dest] by simp
qed

lemma Close_closed: "closed (cursor w) \<Longrightarrow> Close w = Some (None, w)"
  by (simp add: Close_def)

text \<open>
  Claim C5, as amended.  On a cursor that is not closed, whose connection handle is present
  (\<^verbatim>\<open>conn\<close> and its inner connection are not nil) and whose release callback is set, the first
  \<^verbatim>\<open>Close\<close> returns; it marks the cursor closed and detaches the connection; it sends exactly
  one \<^verbatim>\<open>STOP\<close> request with the token of the cursor when the stream is not finished and none
  when it is; it returns the error of the \<^verbatim>\<open>STOP\<close> request, if any, and hands the same value
  to the release callback; an error of the \<^verbatim>\<open>STOP\<close> request does not keep the cursor open.
  A further \<^verbatim>\<open>Close\<close> returns nil and changes nothing, as does \<^verbatim>\<open>Close\<close> on any cursor that is
  marked closed.
\<close>

theorem Close_idempotent_with_connection:
  assumes "\<not> closed (cursor w)"
      and "conn (cursor w) = Some cn" and "conn_conn cn \<noteq> None"
      and "releaseConn (cursor w) \<noteq> None"
  shows "\<exists>w1. Close w = Some (if finished (cursor w) then None else stop_reply w, w1) \<and>
           closed (cursor w1) \<and> conn (cursor w1) = None \<and>
           sent w1 = sent w @ (if finished (cursor w) then []
                               else [\<lparr>Query_Type = Query_STOP, Query_Token = token (cursor w)\<rparr>]) \<and>
           released w1 = released w @ [if finished (cursor w) then None else stop_reply w] \<and>
           Close w1 = Some (None, w1) \<and>
           (\<forall>w2. closed (cursor w2) \<longrightarrow> Close w2 = Some (None, w2))"
proof (cases "finished (cursor w)")
  case True
  let ?w1 = "w\<lparr>cursor := (cursor w)\<lparr>closed := True, conn := None\<rparr>, released := released w @ [None]\<rparr>"
  have "Close w = Some (None, ?w1)"
    using assms True by (auto simp: Close_def call_releaseConn_def)
  moreover have "Close ?w1 = Some (None, ?w1)" by (simp add: Close_closed)
  ultimately show ?thesis using True by (auto simp: Close_closed)
next
  case False
  let ?q = "\<lparr>Query_Type = Query_STOP, Query_Token = token (cursor w)\<rparr>"
  let ?w1 = "w\<lparr>sent := sent w @ [?q], cursor := (cursor w)\<lparr>closed := True, conn := None\<rparr>,
               released := released w @ [stop_reply w]\<rparr>"
  have "Close w = Some (stop_reply w, ?w1)"
    using assms False by (auto simp: Close_def call_releaseConn_def conn_Query_def Let_def)
  moreover have "Close ?w1 = Some (None, ?w1)" by (simp add: Close_closed)
  ultimately show ?thesis using False by (auto simp: Close_closed)
qed


theorem Close_idempotent_with_connection_witness:
  "\<not> closed (cursor stop_fails_world) \<and>
   conn (cursor stop_fails_world) = Some \<lparr>conn_conn = Some NetConn\<rparr> \<and>
   conn_conn \<lparr>conn_conn = Some NetConn\<rparr> \<noteq> None \<and>
   releaseConn (cursor stop_fails_world) \<noteq> None \<and>
   (\<exists>w1. Close stop_fails_world = Some (Some (QueryError ''stop failed''), w1) \<and>
      closed (cursor w1) \<and>
      sent w1 = [\<lparr>Query_Type = Query_STOP, Query_Token = 7\<rparr>] \<and>
      released w1 = [Some (QueryError ''stop failed'')] \<and>
      Close w1 = Some (None, w1)) \<and>
   closed (cursor closed_world) \<and> Close closed_world = Some (None, closed_world)"
proof -
  have a: "\<not> closed (cursor stop_fails_world)"
    and b: "conn (cursor stop_fails_world) = Some \<lparr>conn_conn = Some NetConn\<rparr>"
    and c: "conn_conn \<lparr>conn_conn = Some NetConn\<rparr> \<noteq> None"
    and d: "releaseConn (cursor stop_fails_world) \<noteq> None"
    by (simp_all add: stop_fails_world_def fresh_world_def newCursor_def live_conn_def)
  have v: "\<not> finished (cursor stop_fails_world)" "stop_reply stop_fails_world = Some (QueryError ''stop failed'')"
    "sent stop_fails_world = []" "released stop_fails_world = []" "token (cursor stop_fails_world) = 7"
    by (simp_all add: stop_fails_world_def fresh_world_def newCursor_def)
  have k: "closed (cursor closed_world)"
    by (simp add: closed_world_def)
  show ?thesis
    using a b c d k Close_idempotent_with_connection[OF a b c d] by (auto simp: v)
qed

text \<open>
  Claim C5 as stated fails: the first \<^verbatim>\<open>Close\<close> of a cursor made by \<^verbatim>\<open>newCursor\<close> with a
  nil connection does not mark it closed.
\<close>

theorem Close_leaves_detached_cursor_open:
  "\<not> (\<exists>e w1. Close (fresh_world None []) = Some (e, w1) \<and> closed (cursor w1))"
  by (simp add: Close_def fresh_world_def newCursor_def)

lemma push_all_inv:
  assumes "queue_inv q"
  shows "\<exists>q'. push_all vs q = Some q' \<and> queue_inv q' \<and> contents q' = contents q @ vs"
  using assms
proof (induction vs arbitrary: q)
  case Nil
  then show ?case by simp
next
  case (Cons v vs)
  from Push_inv[OF Cons.prems, of v] obtain q1 where
    p: "Push v q = Some q1" and i: "queue_inv q1" and c: "contents q1 = contents q @ [v]"
    by blast
  from Cons.IH[OF i] obtain q' where
    "push_all vs q1 = Some q'" "queue_inv q'" "contents q' = contents q1 @ vs"
    by blast
  then show ?case using p c by simp
qed

lemma push_value_inv:
  assumes "queue_inv b"
  shows "\<exists>b'. push_value v b = Some b' \<and> queue_inv b' \<and>
           contents b' = contents b @ (case v of JArray data \<Rightarrow> data | IfaceNil \<Rightarrow> [IfaceNil] | _ \<Rightarrow> [v])"
proof (cases v)
  case (JArray data)
  then show ?thesis using push_all_inv[OF assms, of data] by (simp add: push_value_def)
qed (use Push_inv[OF assms, of v] in \<open>auto simp: push_value_def\<close>)

lemma contents_empty: "Len q = 0 \<Longrightarrow> contents q = []"
  by (simp add: contents_def Len_def)

lemma loadNext_fetch_skip:
  assumes "Len (responses (cursor w)) \<noteq> 0 \<or> Len (buffer (cursor w)) \<noteq> 0 \<or>
           finished (cursor w) \<or> lastErr (cursor w) \<noteq> None"
  shows "loadNext_fetch w = Some (None, w)"
  using assms by (subst loadNext_fetch.simps) auto

lemma loadNext_decode_rows:
  assumes b: "queue_inv (buffer (cursor w))" "Len (buffer (cursor w)) = 0"
      and r: "queue_inv (responses (cursor w))"
             "contents (responses (cursor w)) = RawMessage raw # rest"
      and u: "json_Unmarshal K raw = Inr v0"
      and cv: "recursivelyConvertPseudotype K v0 (opts (cursor w)) = Inr v"
  shows "\<exists>w'. loadNext_decode K w = Some (None, w') \<and>
           queue_inv (buffer (cursor w')) \<and>
           contents (buffer (cursor w')) =
             (case v of JArray data \<Rightarrow> data | IfaceNil \<Rightarrow> [IfaceNil] | _ \<Rightarrow> [v]) \<and>
           queue_inv (responses (cursor w')) \<and>
           contents (responses (cursor w')) = rest \<and>
           closed (cursor w') = closed (cursor w) \<and>
           finished (cursor w') = finished (cursor w)"
proof -
  have pos: "0 < nelems (responses (cursor w))"
    using r(2) length_contents[of "responses (cursor w)"] by (cases "nelems (responses (cursor w))") auto
  from Pop_inv[OF r(1) pos] r(2) obtain rq where
    pop: "Pop (responses (cursor w)) = Some (RawMessage raw, rq)"
    and rqi: "queue_inv rq" and rqc: "contents rq = rest"
    by auto
  from push_value_inv[OF b(1), of v] obtain b' where
    pv: "push_value v (buffer (cursor w)) = Some b'" and bi: "queue_inv b'"
    and bc: "contents b' = contents (buffer (cursor w)) @
               (case v of JArray data \<Rightarrow> data | IfaceNil \<Rightarrow> [IfaceNil] | _ \<Rightarrow> [v])"
    by blast
  let ?w1 = "w\<lparr>cursor := (cursor w)\<lparr>responses := rq\<rparr>\<rparr>"
  let ?w2 = "snd (handleError None ?w1)"
  let ?w3 = "snd (handleError None ?w2)"
  let ?w' = "?w3\<lparr>cursor := (cursor ?w3)\<lparr>buffer := b'\<rparr>\<rparr>"
  have o2: "opts (cursor ?w2) = opts (cursor w)"
    by (simp add: handleError_frame)
  have b3: "buffer (cursor ?w3) = buffer (cursor w)"
    by (simp add: handleError_frame)
  have r3: "responses (cursor ?w3) = rq" "closed (cursor ?w3) = closed (cursor w)"
    "finished (cursor ?w3) = finished (cursor w)"
    by (simp_all add: handleError_frame)
  have "loadNext_decode K w = Some (None, ?w')"
    unfolding loadNext_decode_def using b(2) pos
    by (simp add: Len_def pop u Let_def o2 cv b3 pv)
  then show ?thesis
    using bi bc rqi rqc r3 contents_empty[OF b(2)] by simp
qed


lemma Next_after_decode:
  assumes o: "\<not> closed (cursor w)"
      and d: "loadNext_decode K w = Some (None, w')"
      and ne: "Len (responses (cursor w)) \<noteq> 0"
      and bi: "queue_inv (buffer (cursor w'))"
      and bc: "contents (buffer (cursor w')) = x # xs"
      and dec: "encoding_Decode K x = Inr y"
  shows "\<exists>w''. Next K w = Some ((True, Some y), w'')"
proof -
  have pos: "0 < nelems (buffer (cursor w'))"
    using bc length_contents[of "buffer (cursor w')"] by (cases "nelems (buffer (cursor w'))") auto
  from Pop_inv[OF bi pos] bc obtain b' where
    pop: "Pop (buffer (cursor w')) = Some (x, b')" by auto
  have f: "loadNext_fetch w = Some (None, w)"
    using ne by (intro loadNext_fetch_skip) simp
  have "\<exists>w5. loadNext K w = Some ((True, Some y, None), w5)"
  proof (cases "Len (responses (cursor w')) = 1 \<and> \<not> finished (cursor w')")
    case True
    then show ?thesis
      unfolding loadNext_def using ne pos
      by (simp add: f d Len_def pop dec)
  next
    case False
    then show ?thesis
      unfolding loadNext_def using ne pos
      by (simp add: f d Len_def pop dec)
  qed
  then obtain w5 where l: "loadNext K w = Some ((True, Some y, None), w5)" ..
  have h: "fst (handleError None w5) = None" by (rule handleError_nil_result)
  show ?thesis
    unfolding Next_def using o l h
    by (simp add: case_prod_beta Let_def)
qed

text \<open>
  Claim C4.  On an open cursor whose row buffer is empty and whose oldest raw batch decodes
  and normalizes without error to the value \<open>v\<close>, the decoding step of \<^verbatim>\<open>loadNext\<close> removes
  that batch from the raw-batch queue and leaves in the row buffer: the elements of \<open>v\<close>, in
  order, when \<open>v\<close> is a sequence; the single marker nil when \<open>v\<close> is nil; the single value
  \<open>v\<close> otherwise.  When \<open>v\<close> is nil and the destination accepts nil, \<^verbatim>\<open>Next\<close> returns true
  and delivers what the destination decoder makes of nil.
\<close>

theorem loadNext_decode_pushes_rows:
  assumes o: "\<not> closed (cursor w)"
      and b: "queue_inv (buffer (cursor w))" "Len (buffer (cursor w)) = 0"
      and r: "queue_inv (responses (cursor w))"
             "contents (responses (cursor w)) = RawMessage raw # rest"
      and u: "json_Unmarshal K raw = Inr v0"
      and cv: "recursivelyConvertPseudotype K v0 (opts (cursor w)) = Inr v"
  shows "\<exists>w'. loadNext_decode K w = Some (None, w') \<and>
           contents (buffer (cursor w')) =
             (case v of JArray data \<Rightarrow> data | IfaceNil \<Rightarrow> [IfaceNil] | _ \<Rightarrow> [v]) \<and>
           contents (responses (cursor w')) = rest \<and>
           (v = IfaceNil \<and> encoding_Decode K IfaceNil = Inr d \<longrightarrow>
              (\<exists>w''. Next K w = Some ((True, Some d), w'')))"
proof -
  from loadNext_decode_rows[OF b r u cv] obtain w' where
    d: "loadNext_decode K w = Some (None, w')"
    and bi: "queue_inv (buffer (cursor w'))"
    and bc: "contents (buffer (cursor w')) =
             (case v of JArray data \<Rightarrow> data | IfaceNil \<Rightarrow> [IfaceNil] | _ \<Rightarrow> [v])"
    and rc: "contents (responses (cursor w')) = rest"
    by blast
  have ne: "Len (responses (cursor w)) \<noteq> 0"
    using r(2) length_contents[of "responses (cursor w)"] by (auto simp: Len_def)
  have "\<exists>w''. Next K w = Some ((True, Some d), w'')"
    if "v = IfaceNil" "encoding_Decode K IfaceNil = Inr d"
  proof -
    from bc that(1) have "contents (buffer (cursor w')) = IfaceNil # []" by simp
    from Next_after_decode[OF o d ne bi this that(2)] show ?thesis .
  qed
  then show ?thesis using d bc rc by blast
qed

lemma null_reply_world_reached:
  "extend \<lparr>Response_Type = Response_SUCCESS_ATOM, Response_Responses = [''null'']\<rparr>
     (fresh_world live_conn []) = Some null_reply_world"
  by code_simp

theorem loadNext_decode_pushes_rows_witness:
  "\<not> closed (cursor null_reply_world) \<and>
   queue_inv (buffer (cursor null_reply_world)) \<and> Len (buffer (cursor null_reply_world)) = 0 \<and>
   queue_inv (responses (cursor null_reply_world)) \<and>
   contents (responses (cursor null_reply_world)) = RawMessage ''null'' # [] \<and>
   json_Unmarshal generic_dest ''null'' = Inr IfaceNil \<and>
   recursivelyConvertPseudotype generic_dest IfaceNil (opts (cursor null_reply_world)) = Inr IfaceNil \<and>
   encoding_Decode generic_dest IfaceNil = Inr IfaceNil \<and>
   (\<exists>w'. loadNext_decode generic_dest null_reply_world = Some (None, w') \<and>
      contents (buffer (cursor w')) = [IfaceNil] \<and> contents (responses (cursor w')) = []) \<and>
   (\<exists>w''. Next generic_dest null_reply_world = Some ((True, Some IfaceNil), w''))"
proof -
  have o: "\<not> closed (cursor null_reply_world)"
    by (simp add: null_reply_world_def newCursor_def)
  have b: "queue_inv (buffer (cursor null_reply_world))" "Len (buffer (cursor null_reply_world)) = 0"
    by (simp_all add: null_reply_world_def newCursor_def queue_zero_def queue_inv_def Len_def)
  have r: "queue_inv (responses (cursor null_reply_world))"
    "contents (responses (cursor null_reply_world)) = RawMessage ''null'' # []"
    by (simp_all add: null_reply_world_def newCursor_def queue_inv_def contents_def)
  have u: "json_Unmarshal generic_dest ''null'' = Inr IfaceNil"
    by (simp add: generic_dest_def json_literals_def)
  have cv: "recursivelyConvertPseudotype generic_dest IfaceNil (opts (cursor null_reply_world)) = Inr IfaceNil"
    by (simp add: generic_dest_def)
  have dc: "encoding_Decode generic_dest IfaceNil = Inr IfaceNil"
    by (simp add: generic_dest_def)
  from loadNext_decode_pushes_rows[OF o b r u cv, of IfaceNil] dc
  have "(\<exists>w'. loadNext_decode generic_dest null_reply_world = Some (None, w') \<and>
      contents (buffer (cursor w')) = [IfaceNil] \<and> contents (responses (cursor w')) = []) \<and>
   (\<exists>w''. Next generic_dest null_reply_world = Some ((True, Some IfaceNil), w''))"
    by auto
  then show ?thesis using o b r u cv dc by simp
qed


text \<open>
  Claim C2 at a failing input.  On a fresh cursor with a live connection whose first
  \<^verbatim>\<open>CONTINUE\<close> request fails, \<^verbatim>\<open>Next\<close> returns false, but the cursor is not closed when it
  returns: the closed flag is unset, the connection is still attached, \<^verbatim>\<open>Err()\<close> is nil, the
  only request sent is the \<^verbatim>\<open>CONTINUE\<close>, and the release callback was not invoked.
\<close>

theorem Next_leaves_cursor_open_on_error:
  "(Next generic_dest (fresh_world live_conn [Inl (QueryError ''boom'')]) \<bind> (\<lambda>(r, w').
      Some (r, closed (cursor w'), conn (cursor w') = live_conn, Err w', sent w', released w')))
   = Some ((False, None), False, True, None,
           [\<lparr>Query_Type = Query_CONTINUE, Query_Token = 7\<rparr>], [])"
  by code_simp

text \<open>
  Claim C3 at a failing input.  The server answers with a partial reply whose batch is the
  empty array and then with a final reply holding the row \<^verbatim>\<open>1\<close>.  The first \<^verbatim>\<open>Next\<close> returns
  false with \<^verbatim>\<open>Err()\<close> nil although the stream is not finished and the final reply has not
  been fetched yet; only a second \<^verbatim>\<open>Next\<close> returns the row, and a third one returns false at
  the real end.
\<close>

theorem Next_false_before_end_on_empty_batch:
  "(Next generic_dest (fresh_world live_conn [Inr partial_empty, Inr final_one]) \<bind> (\<lambda>(r1, w1).
      Next generic_dest w1 \<bind> (\<lambda>(r2, w2).
      Next generic_dest w2 \<bind> (\<lambda>(r3, w3).
      Some (r1, Err w1, finished (cursor w1), continue_replies w1, r2, r3, Err w3, finished (cursor w3))))))
   = Some ((False, None), None, False, [Inr final_one],
           (True, Some (JNumber 1)), (False, None), None, True)"
  by code_simp

subsection \<open>What the inverted test in \<^verbatim>\<open>handleError\<close> does to every run\<close>

text \<open>
  While the \<^verbatim>\<open>fetching\<close> flag is set, \<^verbatim>\<open>fetchMore\<close> returns nil at once.  The flag is cleared
  by \<^verbatim>\<open>extend\<close> only, so after a \<^verbatim>\<open>CONTINUE\<close> request that failed it stays set; the loop of
  \<^verbatim>\<open>loadNext\<close> then tests an unchanged state for ever, and \<^verbatim>\<open>Next\<close> does not return.
\<close>

lemma fetchMore_busy:
  "fetching (cursor w) \<noteq> 0 \<Longrightarrow> fetchMore w = Some (None, w)"
  by (simp add: fetchMore_def)

lemma loadNext_fetch_returns_not_blocked:
  assumes "loadNext_fetch w = Some y"
  shows "\<not> fetch_blocked w"
proof (rule loadNext_fetch.raw_induct[where P = "\<lambda>w y. \<not> fetch_blocked w", OF _ assms], goal_cases)
  case (1 f w y)
  show ?case
  proof
    assume b: "fetch_blocked w"
    then have "f w = Some y"
      using 1(2) by (simp add: fetch_blocked_def fetchMore_busy)
    from 1(1)[OF this] b show False by simp
  qed
qed

lemma loadNext_fetch_blocked:
  assumes "fetch_blocked w"
  shows "loadNext_fetch w = None"
proof (cases "loadNext_fetch w")
  case (Some y)
  from loadNext_fetch_returns_not_blocked[OF this] assms show ?thesis by simp
qed simp

lemma Next_blocked:
  assumes "fetch_blocked w"
  shows "Next K w = None"
  using assms loadNext_fetch_blocked[OF assms] by (simp add: Next_def loadNext_def fetch_blocked_def)


lemma failed_fetch_world_reached:
  "Next generic_dest (fresh_world live_conn [Inl (QueryError ''boom'')]) =
     Some ((False, None), failed_fetch_world)"
  by code_simp

lemma failed_fetch_world_blocked: "fetch_blocked failed_fetch_world"
  by (simp add: fetch_blocked_def failed_fetch_world_def fresh_world_def newCursor_def
      queue_zero_def Len_def)

text \<open>
  Claim C1 at a failing input.  On the cursor that \<^verbatim>\<open>newCursor\<close> makes, \<^verbatim>\<open>handleError\<close> called
  with an error returns nil and records nothing.  Accordingly, when the first \<^verbatim>\<open>CONTINUE\<close>
  request of a fresh cursor fails, \<^verbatim>\<open>Next\<close> returns false, but \<^verbatim>\<open>Err()\<close> is nil and the
  cursor is not closed; and the following \<^verbatim>\<open>Next\<close> does not see a failed and closed stream:
  it enters the loop of \<^verbatim>\<open>loadNext\<close> with the \<^verbatim>\<open>fetching\<close> flag still set and does not return.
\<close>

theorem handleError_never_records_first_error:
  "handleError (Some (QueryError ''boom'')) (fresh_world live_conn []) = (None, fresh_world live_conn []) \<and>
   (Next generic_dest (fresh_world live_conn [Inl (QueryError ''boom'')]) \<bind> (\<lambda>(r1, w1).
      Some (r1, Err w1, closed (cursor w1), Next generic_dest w1)))
   = Some ((False, None), None, False, None)"
proof -
  have h: "handleError (Some (QueryError ''boom'')) (fresh_world live_conn []) = (None, fresh_world live_conn [])"
    by (simp add: handleError_def fresh_world_def newCursor_def)
  have e: "Err failed_fetch_world = None" "\<not> closed (cursor failed_fetch_world)"
    by (simp_all add: Err_def failed_fetch_world_def fresh_world_def newCursor_def)
  have n: "Next generic_dest failed_fetch_world = None"
    using failed_fetch_world_blocked by (rule Next_blocked)
  show ?thesis
    using h e n by (simp add: failed_fetch_world_reached)
qed

text \<open>
  On a cursor whose \<^verbatim>\<open>lastErr\<close> is nil, as \<^verbatim>\<open>newCursor\<close> makes it, no operation records an
  error and \<^verbatim>\<open>Next\<close> never closes the cursor, whatever \<^verbatim>\<open>loadNext\<close> returns.
\<close>

lemma status_nil: "status w' = status w \<Longrightarrow> lastErr (cursor w) = None \<Longrightarrow> lastErr (cursor w') = None"
  by (simp add: status_def)

lemma handleError_status:
  "lastErr (cursor w) = None \<Longrightarrow> snd (handleError err w) = w"
  by (simp add: handleError_def)

lemma extend_status: "extend r w = Some w' \<Longrightarrow> status w' = status w"
  by (auto simp: extend_def status_def Let_def split: Option.bind_splits if_splits)

lemma status_frame:
  "status (w\<lparr>sent := x\<rparr>) = status w"
  "status (w\<lparr>continue_replies := y\<rparr>) = status w"
  "status (w\<lparr>spawned := z\<rparr>) = status w"
  "status (w\<lparr>cursor := (cursor w)\<lparr>fetching := f\<rparr>\<rparr>) = status w"
  "status (w\<lparr>cursor := (cursor w)\<lparr>responses := rq\<rparr>\<rparr>) = status w"
  "status (w\<lparr>cursor := (cursor w)\<lparr>buffer := b\<rparr>\<rparr>) = status w"
  by (simp_all add: status_def)

lemma conn_Query_status: "conn_Query cn q w = Some (e, w') \<Longrightarrow> status w' = status w"
  by (auto simp: conn_Query_def Let_def status_frame
      dest!: extend_status
      split: option.splits if_splits Query_QueryType.splits list.splits sum.splits)

lemma fetchMore_status:
  assumes "lastErr (cursor w) = None" "fetchMore w = Some (e, w')"
  shows "status w' = status w"
proof (cases "fetching (cursor w) = 0")
  case True
  let ?w1 = "w\<lparr>cursor := (cursor w)\<lparr>fetching := 1\<rparr>\<rparr>"
  from assms(2) True obtain w2 where
    q: "conn_Query (conn (cursor ?w1)) \<lparr>Query_Type = Query_CONTINUE, Query_Token = token (cursor ?w1)\<rparr> ?w1
          = Some (e, w2)"
    and w': "w' = snd (handleError e w2)"
    by (auto simp: fetchMore_def Let_def split: Option.bind_splits)
  from conn_Query_status[OF q] have s2: "status w2 = status w" by (simp add: status_frame)
  then have "lastErr (cursor w2) = None" using assms(1) by (rule status_nil)
  then show ?thesis using w' s2 by (simp add: handleError_status)
next
  case False
  then show ?thesis using assms(2) by (simp add: fetchMore_def)
qed

lemma loadNext_fetch_status:
  assumes "loadNext_fetch w = Some y"
  shows "lastErr (cursor w) = None \<longrightarrow> status (snd y) = status w"
proof (rule loadNext_fetch.raw_induct[where P = "\<lambda>w y. lastErr (cursor w) = None \<longrightarrow> status (snd y) = status w", OF _ assms], goal_cases)
  case (1 f w y)
  show ?case
  proof
    assume n: "lastErr (cursor w) = None"
    show "status (snd y) = status w"
    proof (cases "Len (buffer (cursor w)) = 0 \<and> Len (responses (cursor w)) = 0 \<and> \<not> finished (cursor w)")
      case False
      then show ?thesis using 1(2) by auto
    next
      case loop: True
      show ?thesis
      proof (cases "closed (cursor w)")
        case True
        then show ?thesis using 1(2) loop n by auto
      next
        case False
        with 1(2) loop n obtain err w1 where
          fm: "fetchMore w = Some (err, w1)"
          and rest: "(if err \<noteq> None then Some (Some (False, err), w1) else f w1) = Some y"
          by (auto split: option.splits)
        from fetchMore_status[OF n fm] have s1: "status w1 = status w" .
        show ?thesis
        proof (cases "err = None")
          case True
          with rest have "f w1 = Some y" by simp
          from 1(1)[OF this] status_nil[OF s1 n] s1 show ?thesis by simp
        next
          case False
          with rest s1 show ?thesis by auto
        qed
      qed
    qed
  qed
qed


lemma loadNext_decode_status:
  assumes "lastErr (cursor w) = None" "loadNext_decode K w = Some (r, w')"
  shows "status w' = status w"
  using assms
  by (auto simp: loadNext_decode_def Let_def handleError_status status_def
      split: Option.bind_splits if_splits iface.splits sum.splits)

lemma loadNext_status:
  assumes n: "lastErr (cursor w) = None" and l: "loadNext K w = Some (r, w')"
  shows "status w' = status w"
proof -
  from l obtain r1 w1 where f: "loadNext_fetch w = Some (r1, w1)"
    by (auto simp: loadNext_def split: Option.bind_splits)
  from loadNext_fetch_status[OF f] n have s1: "status w1 = status w" by simp
  have n1: "lastErr (cursor w1) = None" using s1 n by (rule status_nil)
  show ?thesis
  proof (cases r1)
    case (Some a)
    then show ?thesis using l f s1 by (auto simp: loadNext_def split: prod.splits)
  next
    case None
    show ?thesis
    proof (cases "Len (buffer (cursor w1)) = 0 \<and> Len (responses (cursor w1)) = 0 \<and> finished (cursor w1)")
      case True
      then show ?thesis using l f s1 None by (auto simp: loadNext_def)
    next
      case False
      with l f None obtain r2 w2 where d: "loadNext_decode K w1 = Some (r2, w2)"
        by (auto simp: loadNext_def split: Option.bind_splits)
      from loadNext_decode_status[OF n1 d] have s2: "status w2 = status w1" .
      have n2: "lastErr (cursor w2) = None" using s2 n1 by (rule status_nil)
      show ?thesis
        using l f None False d s1 s2 n2
        by (auto simp: loadNext_def Let_def handleError_status status_def
            split: Option.bind_splits if_splits option.splits sum.splits)
    qed
  qed
qed

lemma Next_status:
  assumes n: "lastErr (cursor w) = None" and l: "Next K w = Some (r, w')"
  shows "status w' = status w"
proof (cases "closed (cursor w)")
  case True
  then show ?thesis using l by (simp add: Next_def)
next
  case False
  with l obtain b d e w1 where ln: "loadNext K w = Some ((b, d, e), w1)"
    by (auto simp: Next_def split: Option.bind_splits)
  from loadNext_status[OF n ln] have s1: "status w1 = status w" .
  have n1: "lastErr (cursor w1) = None" using s1 n by (rule status_nil)
  have "handleError e w1 = (None, w1)" using n1 by (simp add: handleError_def)
  then show ?thesis using l False ln s1 by (simp add: Next_def)
qed

lemma Next_never_closes:
  assumes "lastErr (cursor w) = None" "\<not> closed (cursor w)" "Next K w = Some (r, w')"
  shows "\<not> closed (cursor w') \<and> Err w' = None \<and> conn (cursor w') = conn (cursor w) \<and>
         released w' = released w"
  using Next_status[OF assms(1,3)] assms(1,2) by (simp add: status_def Err_def)

subsection \<open>Draining a finished stream whose batches all hold a row\<close>

text \<open>
  The part of claim C3 that the code meets.  When every reply has been handed to \<^verbatim>\<open>extend\<close>
  and the last one was final, every queued batch decodes to at least one row and the
  destination accepts every row, then as many calls of \<^verbatim>\<open>Next\<close> as there are rows return
  true with the rows in their order of arrival, the next call returns false, and \<^verbatim>\<open>Err()\<close>
  is nil.
\<close>

lemma Len_contents: "Len q = length (contents q)"
  by (simp add: Len_def length_contents)

lemma Next_at_end:
  assumes "draining w" "contents (buffer (cursor w)) = []" "contents (responses (cursor w)) = []"
  shows "Next K w = Some ((False, None), w)"
proof -
  have f: "loadNext_fetch w = Some (None, w)"
    using assms(1) by (intro loadNext_fetch_skip) (simp add: draining_def)
  have l: "loadNext K w = Some ((False, None, None), w)"
    using assms by (simp add: loadNext_def f Len_contents draining_def)
  have h: "handleError None w = (None, w)"
    using assms(1) by (simp add: handleError_unset draining_def)
  show ?thesis using assms(1) l h by (simp add: Next_def draining_def)
qed

lemma Next_pops_row:
  assumes dr: "draining w"
      and d: "loadNext_decode K w = Some (None, w1)"
      and dr1: "draining w1"
      and bc: "contents (buffer (cursor w1)) = x # xs"
      and dec: "encoding_Decode K x = Inr y"
  shows "\<exists>w'. Next K w = Some ((True, Some y), w') \<and> draining w' \<and>
           contents (buffer (cursor w')) = xs \<and>
           responses (cursor w') = responses (cursor w1) \<and>
           opts (cursor w') = opts (cursor w1)"
proof -
  have f: "loadNext_fetch w = Some (None, w)"
    using dr by (intro loadNext_fetch_skip) (simp add: draining_def)
  have ne: "\<not> (Len (buffer (cursor w)) = 0 \<and> Len (responses (cursor w)) = 0)"
  proof
    assume e: "Len (buffer (cursor w)) = 0 \<and> Len (responses (cursor w)) = 0"
    then have "loadNext_decode K w = Some (None, w)" by (simp add: loadNext_decode_def)
    with d have "w1 = w" by simp
    with bc e show False by (simp add: Len_contents)
  qed
  have pos: "0 < nelems (buffer (cursor w1))"
    using bc length_contents[of "buffer (cursor w1)"] by (cases "nelems (buffer (cursor w1))") auto
  from dr1 have bi: "queue_inv (buffer (cursor w1))" and fin: "finished (cursor w1)"
    and n1: "lastErr (cursor w1) = None" and o1: "\<not> closed (cursor w1)"
    and ri: "queue_inv (responses (cursor w1))"
    by (simp_all add: draining_def)
  from Pop_inv[OF bi pos] bc obtain b' where
    pop: "Pop (buffer (cursor w1)) = Some (x, b')" and bi': "queue_inv b'" and bc': "contents b' = xs"
    by auto
  let ?w4 = "w1\<lparr>cursor := (cursor w1)\<lparr>buffer := b'\<rparr>\<rparr>"
  have n4: "lastErr (cursor ?w4) = None" using n1 by simp
  have l: "loadNext K w = Some ((True, Some y, None), ?w4)"
    unfolding loadNext_def using ne pos fin
    by (auto simp: f d Len_def pop dec handleError_unset[OF n4])
  have h: "handleError None ?w4 = (None, ?w4)"
    using n4 by (rule handleError_unset)
  have "Next K w = Some ((True, Some y), ?w4)"
    using dr l h by (simp add: Next_def draining_def)
  moreover have "draining ?w4"
    using n1 o1 fin bi' ri by (simp add: draining_def)
  ultimately show ?thesis using bc' by auto
qed

lemma Next_buffered_row:
  assumes dr: "draining w"
      and bc: "contents (buffer (cursor w)) = x # xs"
      and dec: "encoding_Decode K x = Inr y"
  shows "\<exists>w'. Next K w = Some ((True, Some y), w') \<and> draining w' \<and>
           contents (buffer (cursor w')) = xs \<and>
           responses (cursor w') = responses (cursor w) \<and>
           opts (cursor w') = opts (cursor w)"
proof -
  have "Len (buffer (cursor w)) \<noteq> 0" using bc by (simp add: Len_contents)
  then have d: "loadNext_decode K w = Some (None, w)" by (simp add: loadNext_decode_def)
  from Next_pops_row[OF dr d dr bc dec] show ?thesis .
qed

lemma Next_batch_row:
  assumes dr: "draining w"
      and be: "contents (buffer (cursor w)) = []"
      and rc: "contents (responses (cursor w)) = e # rest"
      and rows: "batch_rows K (opts (cursor w)) e = Some (x # xs)"
      and dec: "encoding_Decode K x = Inr y"
  shows "\<exists>w'. Next K w = Some ((True, Some y), w') \<and> draining w' \<and>
           contents (buffer (cursor w')) = xs \<and>
           contents (responses (cursor w')) = rest \<and>
           opts (cursor w') = opts (cursor w)"
proof -
  from rows obtain raw v0 v where e: "e = RawMessage raw"
    and u: "json_Unmarshal K raw = Inr v0"
    and cv: "recursivelyConvertPseudotype K v0 (opts (cursor w)) = Inr v"
    and v: "(case v of JArray data \<Rightarrow> data | _ \<Rightarrow> [v]) = x # xs"
    by (auto simp: batch_rows_def split: iface.splits sum.splits)
  from dr have bi: "queue_inv (buffer (cursor w))" and ri: "queue_inv (responses (cursor w))"
    and n: "lastErr (cursor w) = None"
    by (simp_all add: draining_def)
  have b0: "Len (buffer (cursor w)) = 0" using be by (simp add: Len_contents)
  from loadNext_decode_rows[OF bi b0 ri rc[unfolded e] u cv] obtain w1 where
    d: "loadNext_decode K w = Some (None, w1)"
    and bi1: "queue_inv (buffer (cursor w1))"
    and bc1: "contents (buffer (cursor w1)) =
               (case v of JArray data \<Rightarrow> data | IfaceNil \<Rightarrow> [IfaceNil] | _ \<Rightarrow> [v])"
    and ri1: "queue_inv (responses (cursor w1))"
    and rc1: "contents (responses (cursor w1)) = rest"
    and c1: "closed (cursor w1) = closed (cursor w)"
    and f1: "finished (cursor w1) = finished (cursor w)"
    by blast
  from loadNext_decode_status[OF n d] have s1: "status w1 = status w" .
  have n1: "lastErr (cursor w1) = None" using s1 n by (rule status_nil)
  have o1: "opts (cursor w1) = opts (cursor w)"
    using d n
    by (auto simp: loadNext_decode_def Let_def handleError_unset
        split: Option.bind_splits if_splits iface.splits sum.splits)
  have dr1: "draining w1"
    using dr n1 bi1 ri1 c1 f1 by (simp add: draining_def)
  have bc1': "contents (buffer (cursor w1)) = x # xs"
    using bc1 v by (cases v) simp_all
  from Next_pops_row[OF dr d dr1 bc1' dec] rc1 o1 show ?thesis by auto
qed


lemma Next_n_buffered:
  assumes "draining w" "contents (responses (cursor w)) = []"
      and "contents (buffer (cursor w)) = bs"
      and "\<forall>x\<in>set bs. encoding_Decode K x = Inr (dec x)"
  shows "\<exists>w'. Next_n K (Suc (length bs)) w =
            Some (map (\<lambda>x. (True, Some (dec x))) bs @ [(False, None)], w') \<and> Err w' = None"
  using assms
proof (induction bs arbitrary: w)
  case Nil
  from Next_at_end[OF Nil(1) Nil(3) Nil(2), of K] Nil(1) show ?case
    by (simp add: Err_def draining_def)
next
  case (Cons x xs)
  have dx: "encoding_Decode K x = Inr (dec x)" using Cons.prems(4) by simp
  from Next_buffered_row[OF Cons.prems(1,3) dx] obtain w1 where
    n: "Next K w = Some ((True, Some (dec x)), w1)" and d1: "draining w1"
    and b1: "contents (buffer (cursor w1)) = xs"
    and r1: "responses (cursor w1) = responses (cursor w)"
    by blast
  have "\<exists>w'. Next_n K (Suc (length xs)) w1 =
            Some (map (\<lambda>x. (True, Some (dec x))) xs @ [(False, None)], w') \<and> Err w' = None"
    using d1 b1 r1 Cons.prems by (intro Cons.IH) simp_all
  then obtain w' where
    rest: "Next_n K (Suc (length xs)) w1 = Some (map (\<lambda>x. (True, Some (dec x))) xs @ [(False, None)], w')"
    and e: "Err w' = None" by blast
  have "Next_n K (Suc (Suc (length xs))) w =
          Some ((True, Some (dec x)) # map (\<lambda>x. (True, Some (dec x))) xs @ [(False, None)], w')"
    by (subst Next_n.simps(2)) (simp add: n rest del: Next_n.simps)
  then show ?case using e by simp
qed


lemma Next_n_step:
  assumes "Next K w = Some (r, w1)" "Next_n K n w1 = Some (rs, w')"
  shows "Next_n K (Suc n) w = Some (r # rs, w')"
  using assms by simp

lemma all_rows_Cons:
  "batch_rows K os e = Some rows \<Longrightarrow> all_rows K os (e # es) = rows @ all_rows K os es"
  by (simp add: all_rows_def)

lemma Next_n_drains:
  assumes "draining w"
      and "contents (responses (cursor w)) = es"
      and "contents (buffer (cursor w)) = bs"
      and "opts (cursor w) = os"
      and "\<forall>e\<in>set es. \<exists>rows. batch_rows K os e = Some rows \<and> rows \<noteq> []"
      and "\<forall>x\<in>set (bs @ all_rows K os es). encoding_Decode K x = Inr (dec x)"
  shows "\<exists>w'. Next_n K (Suc (length (bs @ all_rows K os es))) w =
            Some (map (\<lambda>x. (True, Some (dec x))) (bs @ all_rows K os es) @ [(False, None)], w') \<and>
          Err w' = None"
  using assms
proof (induction es arbitrary: w bs)
  case Nil
  from Next_n_buffered[OF Nil(1) Nil(2) Nil(3), of K dec] Nil(6)
  show ?case by (simp add: all_rows_def)
next
  case (Cons e rest)
  note outer = Cons.IH
  from Cons.prems(5) obtain x xs where rows: "batch_rows K os e = Some (x # xs)"
    by (auto simp: neq_Nil_conv)
  have rest_ok: "\<forall>e\<in>set rest. \<exists>rows. batch_rows K os e = Some rows \<and> rows \<noteq> []"
    using Cons.prems(5) by simp
  have ar: "all_rows K os (e # rest) = (x # xs) @ all_rows K os rest"
    using rows by (rule all_rows_Cons)
  from Cons.prems(1,2,3,4,6) show ?case
  proof (induction bs arbitrary: w)
    case Nil
    have dx: "encoding_Decode K x = Inr (dec x)" using Nil(5) ar by simp
    from Next_batch_row[OF Nil(1) Nil(3) Nil(2) rows[folded Nil(4)] dx] obtain w1 where
      n: "Next K w = Some ((True, Some (dec x)), w1)" and d1: "draining w1"
      and b1: "contents (buffer (cursor w1)) = xs"
      and r1: "contents (responses (cursor w1)) = rest"
      and o1: "opts (cursor w1) = opts (cursor w)"
      by blast
    have "\<forall>y\<in>set (xs @ all_rows K os rest). encoding_Decode K y = Inr (dec y)"
      using Nil(5) ar by simp
    from outer[OF d1 r1 b1 _ rest_ok this] o1 Nil(4) obtain w' where
      rs: "Next_n K (Suc (length (xs @ all_rows K os rest))) w1 =
            Some (map (\<lambda>x. (True, Some (dec x))) (xs @ all_rows K os rest) @ [(False, None)], w')"
      and e: "Err w' = None"
      by auto
    from Next_n_step[OF n rs] e show ?case by (simp add: ar del: Next_n.simps)
  next
    case (Cons b bs)
    have db: "encoding_Decode K b = Inr (dec b)" using Cons.prems(5) by simp
    from Next_buffered_row[OF Cons.prems(1) Cons.prems(3) db] obtain w1 where
      n: "Next K w = Some ((True, Some (dec b)), w1)" and d1: "draining w1"
      and b1: "contents (buffer (cursor w1)) = bs"
      and r1: "responses (cursor w1) = responses (cursor w)"
      and o1: "opts (cursor w1) = opts (cursor w)"
      by blast
    have "\<forall>y\<in>set (bs @ all_rows K os (e # rest)). encoding_Decode K y = Inr (dec y)"
      using Cons.prems(5) by simp
    from Cons.IH[OF d1 _ b1 _ this] r1 o1 Cons.prems(2,4) obtain w' where
      rs: "Next_n K (Suc (length (bs @ all_rows K os (e # rest)))) w1 =
            Some (map (\<lambda>x. (True, Some (dec x))) (bs @ all_rows K os (e # rest)) @ [(False, None)], w')"
      and e: "Err w' = None"
      by auto
    from Next_n_step[OF n rs] e show ?case by (simp del: Next_n.simps)
  qed
qed

lemma Next_n_drains_three_rows:
  "(extend \<lparr>Response_Type = Response_SUCCESS_SEQUENCE, Response_Responses = [''1'', ''null'', ''2'']\<rparr>
      (fresh_world live_conn []) \<bind> (\<lambda>w.
    Next_n generic_dest 4 w \<bind> (\<lambda>(rs, w'). Some (rs, Err w'))))
   = Some ([(True, Some (JNumber 1)), (True, Some IfaceNil), (True, Some (JNumber 2)), (False, None)],
           None)"
  by code_simp

end
